theory Spec2Isabelle
  imports Main "HOL-Library.Word" "HOL-Library.Signed_Division"
begin

unbundle bit_operations_syntax

section \<open>Device memory and the PacketDataBuffer\<close>

text \<open>
  An \<^verbatim>\<open>rmm::device_buffer\<close> is a run of bytes in GPU memory; \<^verbatim>\<open>size()\<close> is its length
  in bytes. Host-side sizes are \<^verbatim>\<open>std::size_t\<close> (64 bit); they are modelled as \<open>nat\<close>,
  the 32-bit values of the source as \<open>32 word\<close>.
\<close>

type_synonym byte = "8 word"
type_synonym device_buffer = "byte list"

text \<open>
  \<^verbatim>\<open>doca::packet_data_buffer\<close> (used in \<^verbatim>\<open>doca_convert_stage.cpp\<close>): the packet count, the
  stream the buffers were filled on, and the three device buffers.
\<close>

record packet_data_buffer =
  m_num_packets :: nat
  m_stream :: nat
  m_header_buffer :: device_buffer
  m_payload_buffer :: device_buffer
  m_payload_sizes_buffer :: device_buffer

text \<open>
  Modelled from the spec: the constructor of \<^verbatim>\<open>packet_data_buffer\<close> is declared in a header
  that is not among the sources. The spec's data model says each buffer is "sized exactly
  to the batch's needs (not over-allocated)": the constructor allocates the header,
  payload and payload-sizes buffers with the byte sizes it is given. Fresh device memory
  is written as zero bytes; only its size is used below.
\<close>

definition new_packet_data_buffer :: "nat \<Rightarrow> nat \<Rightarrow> nat \<Rightarrow> nat \<Rightarrow> nat \<Rightarrow> packet_data_buffer" where
  "new_packet_data_buffer num_packets header_size payload_size payload_sizes_size stream =
     \<lparr> m_num_packets = num_packets,
       m_stream = stream,
       m_header_buffer = replicate header_size 0,
       m_payload_buffer = replicate payload_size 0,
       m_payload_sizes_buffer = replicate payload_sizes_size 0 \<rparr>"

text \<open>
  \<^verbatim>\<open>cudaMemcpyAsync(dst + off, src, n, cudaMemcpyDeviceToDevice, stream)\<close> under
  \<^verbatim>\<open>MRC_CHECK_CUDA\<close>: \<open>n\<close> bytes of \<open>src\<close> replace the bytes of \<open>dst\<close> from offset \<open>off\<close>.
  A copy that would leave either allocation is \<open>None\<close> (the checked call fails).
\<close>

definition cudaMemcpyAsync :: "device_buffer \<Rightarrow> nat \<Rightarrow> byte list \<Rightarrow> nat \<Rightarrow> device_buffer option" where
  "cudaMemcpyAsync dst off src n =
     (if off + n \<le> length dst \<and> n \<le> length src
      then Some (take off dst @ take n src @ drop (off + n) dst)
      else None)"

text \<open>
  A device kernel that fills a buffer through its data pointer: the bytes it produces
  overwrite the front of the allocation, whose size does not change.
\<close>

definition kernel_store :: "device_buffer \<Rightarrow> byte list \<Rightarrow> device_buffer" where
  "kernel_store buf out = take (length buf) out @ drop (length out) buf"

text \<open>The bytes of a \<^verbatim>\<open>uint32_t\<close> in (little-endian) device memory, and their reading.\<close>

definition le_bytes32 :: "32 word \<Rightarrow> byte list" where
  "le_bytes32 w = [ucast w, ucast (drop_bit 8 w), ucast (drop_bit 16 w), ucast (drop_bit 24 w)]"

definition uint32_array_bytes :: "32 word list \<Rightarrow> byte list" where
  "uint32_array_bytes ws = concat (map le_bytes32 ws)"

section \<open>DocaConvertStage::on_raw_packet_message\<close>

text \<open>
  The part of a \<^verbatim>\<open>RawPacketMessage\<close> the function reads: \<^verbatim>\<open>count()\<close> (a \<^verbatim>\<open>uint32_t\<close>) and
  the device array \<^verbatim>\<open>get_pkt_pld_size_list()\<close> of per-packet payload sizes. The two gather
  kernels are device code outside the sources; what they write is a parameter.
\<close>

record raw_packet_message =
  count :: "32 word"
  pkt_pld_size_list :: "32 word list"

record gather_kernels =
  gather_payload :: "raw_packet_message \<Rightarrow> byte list"
  gather_header :: "raw_packet_message \<Rightarrow> byte list"

text \<open>
  Modelled from the spec: \<^verbatim>\<open>doca::gather_sizes\<close> is a device reduction outside the sources.
  The spec gives the payload buffer's size as the "sum of per-packet payload sizes": the
  sum of the first \<^verbatim>\<open>packet_count\<close> entries of the size list.
\<close>

definition gather_sizes :: "32 word \<Rightarrow> 32 word list \<Rightarrow> nat" where
  "gather_sizes packet_count sizes = sum_list (map unat (take (unat packet_count) sizes))"

text \<open>
  \<^verbatim>\<open>const uint32_t header_buff_size = packet_count * sizeof(uint32_t)\<close> is truncated to 32
  bits; \<^verbatim>\<open>sizes_buff_size\<close> is a \<^verbatim>\<open>size_t\<close> product. The result is the buffer handed to
  \<^verbatim>\<open>m_buffer_channel->await_write\<close>; \<open>None\<close> when the size list has fewer than
  \<^verbatim>\<open>packet_count\<close> entries to copy.
\<close>

definition on_raw_packet_message ::
  "gather_kernels \<Rightarrow> nat \<Rightarrow> raw_packet_message \<Rightarrow> packet_data_buffer option" where
  "on_raw_packet_message k m_stream_cpp raw_msg =
     (let packet_count = count raw_msg;
          payload_buff_size = gather_sizes packet_count (pkt_pld_size_list raw_msg);
          header_buff_size = unat (packet_count * (4 :: 32 word));
          sizes_buff_size = unat packet_count * 4;
          packet_buffer = new_packet_data_buffer (unat packet_count) header_buff_size
                            payload_buff_size sizes_buff_size m_stream_cpp;
          payload = kernel_store (m_payload_buffer packet_buffer) (gather_payload k raw_msg);
          header = kernel_store (m_header_buffer packet_buffer) (gather_header k raw_msg)
      in case cudaMemcpyAsync (m_payload_sizes_buffer packet_buffer) 0
                (uint32_array_bytes (pkt_pld_size_list raw_msg)) sizes_buff_size of
           None \<Rightarrow> None
         | Some sizes \<Rightarrow>
             Some (packet_buffer \<lparr> m_payload_buffer := payload,
                                  m_header_buffer := header,
                                  m_payload_sizes_buffer := sizes \<rparr>))"

text \<open>Reading a payload-sizes buffer back as the \<^verbatim>\<open>uint32_t\<close> array it holds.\<close>

definition of_le_bytes32 :: "byte list \<Rightarrow> 32 word" where
  "of_le_bytes32 bs = (case bs of
       [b0, b1, b2, b3] \<Rightarrow> ucast b0 OR push_bit 8 (ucast b1) OR push_bit 16 (ucast b2) OR push_bit 24 (ucast b3)
     | _ \<Rightarrow> 0)"

fun uint32_array_of :: "byte list \<Rightarrow> 32 word list" where
  "uint32_array_of (b0 # b1 # b2 # b3 # bs) = of_le_bytes32 [b0, b1, b2, b3] # uint32_array_of bs"
| "uint32_array_of _ = []"

text \<open>The fixed header stride: one \<^verbatim>\<open>uint32_t\<close> (the source address) per packet.\<close>

definition header_stride :: nat where
  "header_stride = 4"

definition MAX_PKT_RECEIVE :: nat where
  "MAX_PKT_RECEIVE = 4 * 1024"

section \<open>concat\_packet\_buffers\<close>

text \<open>
  The loop of \<^verbatim>\<open>concat_packet_buffers\<close> keeps three running byte offsets into the combined
  buffer. Every \<^verbatim>\<open>cudaMemcpyAsync\<close> it issues is also recorded, as (field, destination
  offset, byte count), in the order issued.
\<close>

datatype buffer_field = Header | Payload | PayloadSizes

type_synonym device_copy = "buffer_field \<times> nat \<times> nat"

record concat_state =
  combined_buffer :: packet_data_buffer
  curr_header_offset :: nat
  curr_payload_offset :: nat
  curr_payload_sizes_offset :: nat
  copies :: "device_copy list"

text \<open>One iteration of \<^verbatim>\<open>for (auto& packet_buffer : packet_buffers)\<close>.\<close>

definition concat_step :: "concat_state \<Rightarrow> packet_data_buffer \<Rightarrow> concat_state option" where
  "concat_step st packet_buffer =
     (let header_size = length (m_header_buffer packet_buffer);
          payload_size = length (m_payload_buffer packet_buffer);
          payload_sizes_size = length (m_payload_sizes_buffer packet_buffer)
      in case cudaMemcpyAsync (m_header_buffer (combined_buffer st)) (curr_header_offset st)
                (m_header_buffer packet_buffer) header_size of
           None \<Rightarrow> None
         | Some header \<Rightarrow>
        (case cudaMemcpyAsync (m_payload_buffer (combined_buffer st)) (curr_payload_offset st)
                (m_payload_buffer packet_buffer) payload_size of
           None \<Rightarrow> None
         | Some payload \<Rightarrow>
        (case cudaMemcpyAsync (m_payload_sizes_buffer (combined_buffer st)) (curr_payload_sizes_offset st)
                (m_payload_sizes_buffer packet_buffer) payload_sizes_size of
           None \<Rightarrow> None
         | Some payload_sizes \<Rightarrow>
             Some \<lparr> combined_buffer = (combined_buffer st)
                       \<lparr> m_header_buffer := header,
                         m_payload_buffer := payload,
                         m_payload_sizes_buffer := payload_sizes \<rparr>,
                    curr_header_offset = curr_header_offset st + header_size,
                    curr_payload_offset = curr_payload_offset st + payload_size,
                    curr_payload_sizes_offset = curr_payload_sizes_offset st + payload_sizes_size,
                    copies = copies st @
                      [(Header, curr_header_offset st, header_size),
                       (Payload, curr_payload_offset st, payload_size),
                       (PayloadSizes, curr_payload_sizes_offset st, payload_sizes_size)] \<rparr>)))"

fun concat_loop :: "concat_state \<Rightarrow> packet_data_buffer list \<Rightarrow> concat_state option" where
  "concat_loop st [] = Some st"
| "concat_loop st (packet_buffer # rest) =
     (case concat_step st packet_buffer of
        None \<Rightarrow> None
      | Some st' \<Rightarrow> concat_loop st' rest)"

text \<open>
  \<^verbatim>\<open>concat_packet_buffers\<close> with the copies it issued. An empty vector violates the
  \<^verbatim>\<open>DCHECK\<close> (\<open>None\<close>); a single buffer is returned as it is, without any copy.
\<close>

definition concat_packet_buffers_copies ::
  "nat \<Rightarrow> nat \<Rightarrow> nat \<Rightarrow> nat \<Rightarrow> packet_data_buffer list \<Rightarrow> (packet_data_buffer \<times> device_copy list) option" where
  "concat_packet_buffers_copies ttl_pkts ttl_header ttl_payload ttl_payload_sizes packet_buffers =
     (case packet_buffers of
        [] \<Rightarrow> None
      | [only] \<Rightarrow> Some (only, [])
      | first # _ \<Rightarrow>
          (case concat_loop
                  \<lparr> combined_buffer = new_packet_data_buffer ttl_pkts ttl_header ttl_payload
                                        ttl_payload_sizes (m_stream first),
                    curr_header_offset = 0,
                    curr_payload_offset = 0,
                    curr_payload_sizes_offset = 0,
                    copies = [] \<rparr>
                  packet_buffers of
             None \<Rightarrow> None
           | Some st \<Rightarrow> Some (combined_buffer st, copies st)))"

definition concat_packet_buffers ::
  "nat \<Rightarrow> nat \<Rightarrow> nat \<Rightarrow> nat \<Rightarrow> packet_data_buffer list \<Rightarrow> packet_data_buffer option" where
  "concat_packet_buffers ttl_pkts ttl_header ttl_payload ttl_payload_sizes packet_buffers =
     map_option fst
       (concat_packet_buffers_copies ttl_pkts ttl_header ttl_payload ttl_payload_sizes packet_buffers)"

section \<open>DocaConvertStage::buffer\_reader\<close>

text \<open>
  The locals of \<^verbatim>\<open>buffer_reader\<close>: the four running totals of the current window and the
  vector \<^verbatim>\<open>packets\<close> of buffers read in it.
\<close>

record reader_window =
  ttl_packets :: nat
  ttl_header_bytes :: nat
  ttl_payload_bytes :: nat
  ttl_payload_sizes_bytes :: nat
  packets :: "packet_data_buffer list"

definition empty_window :: reader_window where
  "empty_window = \<lparr> ttl_packets = 0, ttl_header_bytes = 0, ttl_payload_bytes = 0,
                     ttl_payload_sizes_bytes = 0, packets = [] \<rparr>"

text \<open>The body of \<^verbatim>\<open>if (status == mrc::channel::Status::success)\<close>.\<close>

definition accumulate :: "reader_window \<Rightarrow> packet_data_buffer \<Rightarrow> reader_window" where
  "accumulate w packet_buffer =
     \<lparr> ttl_packets = ttl_packets w + m_num_packets packet_buffer,
       ttl_header_bytes = ttl_header_bytes w + length (m_header_buffer packet_buffer),
       ttl_payload_bytes = ttl_payload_bytes w + length (m_payload_buffer packet_buffer),
       ttl_payload_sizes_bytes = ttl_payload_sizes_bytes w + length (m_payload_sizes_buffer packet_buffer),
       packets = packets w @ [packet_buffer] \<rparr>"

text \<open>The call \<^verbatim>\<open>concat_packet_buffers(ttl_packets, ..., std::move(packets))\<close> of the reader.\<close>

definition concat_window :: "reader_window \<Rightarrow> packet_data_buffer option" where
  "concat_window w =
     concat_packet_buffers (ttl_packets w) (ttl_header_bytes w) (ttl_payload_bytes w)
       (ttl_payload_sizes_bytes w) (packets w)"

definition concat_window_copies :: "reader_window \<Rightarrow> (packet_data_buffer \<times> device_copy list) option" where
  "concat_window_copies w =
     concat_packet_buffers_copies (ttl_packets w) (ttl_header_bytes w) (ttl_payload_bytes w)
       (ttl_payload_sizes_bytes w) (packets w)"

text \<open>
  The accumulation path on a list of buffers read in one window, in the order read:
  accumulate each, then concatenate.
\<close>

definition accumulate_all :: "packet_data_buffer list \<Rightarrow> reader_window" where
  "accumulate_all bufs = foldl accumulate empty_window bufs"

definition merge_buffers :: "packet_data_buffer list \<Rightarrow> packet_data_buffer option" where
  "merge_buffers bufs = concat_window (accumulate_all bufs)"

text \<open>
  The handoff channel is an \<^verbatim>\<open>mrc::BufferedChannel\<close>, a library type over
  \<^verbatim>\<open>boost::fibers::buffered_channel\<close>: a FIFO queue with a closed flag.
  \<^verbatim>\<open>is_channel_closed\<close> reads the flag, whatever the queue holds. A read pops the oldest
  entry when there is one (also after the close), reports \<open>Closed\<close> on an empty closed
  channel and \<open>Timeout\<close> when the deadline passes on an empty open one. A write on a
  closed channel is refused. The capacity bound only delays a writer and is left out.
\<close>

datatype channel_status = Success | Timeout | Closed

record buffered_channel =
  ch_queue :: "packet_data_buffer list"
  ch_closed :: bool

definition is_channel_closed :: "buffered_channel \<Rightarrow> bool" where
  "is_channel_closed ch = ch_closed ch"

definition close_channel :: "buffered_channel \<Rightarrow> buffered_channel" where
  "close_channel ch = ch \<lparr> ch_closed := True \<rparr>"

definition await_write :: "buffered_channel \<Rightarrow> packet_data_buffer \<Rightarrow> channel_status \<times> buffered_channel" where
  "await_write ch packet_buffer =
     (if ch_closed ch then (Closed, ch)
      else (Success, ch \<lparr> ch_queue := ch_queue ch @ [packet_buffer] \<rparr>))"

definition await_read_until ::
  "buffered_channel \<Rightarrow> channel_status \<times> packet_data_buffer option \<times> buffered_channel" where
  "await_read_until ch =
     (case ch_queue ch of
        packet_buffer # rest \<Rightarrow> (Success, Some packet_buffer, ch \<lparr> ch_queue := rest \<rparr>)
      | [] \<Rightarrow> (if ch_closed ch then Closed else Timeout, None, ch))"

text \<open>
  What the producer side of the stage (\<^verbatim>\<open>DocaConvertStage::build\<close>) does to the channel:
  \<^verbatim>\<open>on_raw_packet_message\<close> ends in \<^verbatim>\<open>await_write\<close> (its status is not looked at), and the
  completion handler calls \<^verbatim>\<open>close_channel\<close>.
\<close>

datatype producer_action = Write packet_data_buffer | Close

definition producer_acts :: "buffered_channel \<Rightarrow> producer_action \<Rightarrow> buffered_channel" where
  "producer_acts ch a = (case a of Write packet_buffer \<Rightarrow> snd (await_write ch packet_buffer)
                                  | Close \<Rightarrow> close_channel ch)"

text \<open>
  The reader runs on its own fiber. One turn of the reader is one evaluation of the inner
  loop condition and what follows it, up to the next evaluation. The environment of a
  turn: what the producer did since the previous turn (\<open>earlier\<close>), whether
  \<^verbatim>\<open>steady_clock::now() < poll_end\<close> holds (\<open>in_time\<close>), and what the producer does while
  \<^verbatim>\<open>await_read_until\<close> waits on an empty channel (\<open>while_waiting\<close>; empty when the deadline
  passes first).
\<close>

record reader_turn =
  earlier :: "producer_action list"
  in_time :: bool
  while_waiting :: "producer_action list"

record reader_state =
  channel :: buffered_channel
  window :: reader_window
  emitted :: "packet_data_buffer list"
  finished :: bool

text \<open>
  \<^verbatim>\<open>if (!packets.empty()) { ... send_buffered_data(output, combined); packets.clear(); }\<close>:
  the combined buffer is what \<^verbatim>\<open>send_buffered_data\<close> turns into the emitted message.
\<close>

definition emit_window :: "reader_state \<Rightarrow> reader_state option" where
  "emit_window s =
     (if packets (window s) \<noteq> [] then
        (case concat_window (window s) of
           None \<Rightarrow> None
         | Some combined_data \<Rightarrow>
             Some (s \<lparr> emitted := emitted s @ [combined_data],
                       window := (window s) \<lparr> packets := [] \<rparr> \<rparr>))
      else Some s)"

text \<open>
  The head of the outer loop: \<^verbatim>\<open>while (!m_buffer_channel->is_channel_closed())\<close> and the
  reset of the four totals.
\<close>

definition outer_loop_head :: "reader_state \<Rightarrow> reader_state" where
  "outer_loop_head s =
     (if is_channel_closed (channel s) then s \<lparr> finished := True \<rparr>
      else s \<lparr> window := (window s) \<lparr> ttl_packets := 0, ttl_header_bytes := 0,
                                      ttl_payload_bytes := 0, ttl_payload_sizes_bytes := 0 \<rparr> \<rparr>)"

definition reader_turn_step :: "reader_state \<Rightarrow> reader_turn \<Rightarrow> reader_state option" where
  "reader_turn_step s t =
     (if finished s then Some s
      else
        let ch = foldl producer_acts (channel s) (earlier t) in
        if in_time t \<and> \<not> is_channel_closed ch then
          (let waited = (if ch_queue ch = [] then foldl producer_acts ch (while_waiting t) else ch)
           in case await_read_until waited of
                (Success, Some packet_buffer, ch') \<Rightarrow>
                  Some (s \<lparr> channel := ch', window := accumulate (window s) packet_buffer \<rparr>)
              | (_, _, ch') \<Rightarrow> Some (s \<lparr> channel := ch' \<rparr>))
        else
          (case emit_window (s \<lparr> channel := ch \<rparr>) of
             None \<Rightarrow> None
           | Some s' \<Rightarrow> Some (outer_loop_head s')))"

fun reader_turns :: "reader_state \<Rightarrow> reader_turn list \<Rightarrow> reader_state option" where
  "reader_turns s [] = Some s"
| "reader_turns s (t # ts) =
     (case reader_turn_step s t of
        None \<Rightarrow> None
      | Some s' \<Rightarrow> reader_turns s' ts)"

text \<open>
  \<^verbatim>\<open>buffer_reader\<close> started on a channel in state \<open>ch\<close> and run for the given turns.
  \<open>None\<close>: a concatenation failed. \<open>finished\<close> in the result: the function has returned.
\<close>

definition buffer_reader :: "buffered_channel \<Rightarrow> reader_turn list \<Rightarrow> reader_state option" where
  "buffer_reader ch turns =
     reader_turns
       (outer_loop_head \<lparr> channel = ch, window = empty_window, emitted = [], finished = False \<rparr>)
       turns"


section \<open>ip\_to\_int (doca\_source.cpp and doca\_convert.cpp)\<close>

text \<open>
  \<^verbatim>\<open>sscanf(s, "%hhu.%hhu.%hhu.%hhu", &a, &b, &c, &d)\<close> is the C library's. A \<^verbatim>\<open>%hhu\<close>
  directive skips white space, reads an optional sign and the longest run of decimal
  digits (at least one), converts it as \<^verbatim>\<open>strtoul\<close> does (saturating at \<^verbatim>\<open>ULONG_MAX\<close>,
  negating modulo \<open>2 ^ 64\<close> after a minus sign) and stores the low eight bits. A literal
  character of the format must be the next character of the input. The scan stops at the
  first directive that fails; the return value is the number of values stored (an
  \<^verbatim>\<open>EOF\<close> before the first conversion is not told apart from 0, since \<^verbatim>\<open>ip_to_int\<close> only
  compares the return value with 4).
\<close>

definition is_space :: "char \<Rightarrow> bool" where
  "is_space c \<longleftrightarrow> (of_char c :: nat) = 32 \<or> (9 \<le> (of_char c :: nat) \<and> (of_char c :: nat) \<le> 13)"

definition is_digit :: "char \<Rightarrow> bool" where
  "is_digit c \<longleftrightarrow> 48 \<le> (of_char c :: nat) \<and> (of_char c :: nat) \<le> 57"

definition digit_value :: "char \<Rightarrow> nat" where
  "digit_value c = of_char c - 48"

definition decimal_value :: "string \<Rightarrow> nat" where
  "decimal_value digits = foldl (\<lambda>acc c. acc * 10 + digit_value c) 0 digits"

definition ULONG_MAX :: nat where
  "ULONG_MAX = 2 ^ 64 - 1"

definition scan_hhu :: "string \<Rightarrow> (byte \<times> string) option" where
  "scan_hhu input =
     (let s1 = dropWhile is_space input;
          negative = (case s1 of c # _ \<Rightarrow> c = CHR ''-'' | [] \<Rightarrow> False);
          s2 = (case s1 of c # r \<Rightarrow> if c = CHR ''-'' \<or> c = CHR ''+'' then r else s1 | [] \<Rightarrow> s1);
          digits = takeWhile is_digit s2
      in if digits = [] then None
         else
           let v = decimal_value digits;
               u = (if ULONG_MAX < v then ULONG_MAX
                    else if negative then (2 ^ 64 - v) mod 2 ^ 64
                    else v)
           in Some (of_nat u, dropWhile is_digit s2))"

datatype directive = HHU | Literal char

fun scan_directives :: "directive list \<Rightarrow> string \<Rightarrow> byte list" where
  "scan_directives [] input = []"
| "scan_directives (HHU # fmt) input =
     (case scan_hhu input of
        None \<Rightarrow> []
      | Some (v, rest) \<Rightarrow> v # scan_directives fmt rest)"
| "scan_directives (Literal c # fmt) input =
     (case input of
        [] \<Rightarrow> []
      | x # rest \<Rightarrow> if x = c then scan_directives fmt rest else [])"

text \<open>The format \<^verbatim>\<open>"%hhu.%hhu.%hhu.%hhu"\<close>; the result is (return value, values stored).\<close>

definition sscanf_ip :: "string \<Rightarrow> nat \<times> byte list" where
  "sscanf_ip input =
     (let stored = scan_directives
                     [HHU, Literal CHR ''.'', HHU, Literal CHR ''.'', HHU, Literal CHR ''.'', HHU] input
      in (length stored, stored))"

text \<open>
  \<^verbatim>\<open>RTE_BE32\<close> is DPDK's: on the little-endian hosts the capture path runs on it swaps the
  four bytes of its argument (\<^verbatim>\<open>RTE_STATIC_BSWAP32\<close>), so that the value lies in memory in
  network byte order.
\<close>

definition RTE_BE32 :: "32 word \<Rightarrow> 32 word" where
  "RTE_BE32 v = push_bit 24 (v AND 0x000000ff) OR push_bit 8 (v AND 0x0000ff00)
              OR drop_bit 8 (v AND 0x00ff0000) OR drop_bit 24 (v AND 0xff000000)"

text \<open>\<^verbatim>\<open>#define BE_IPV4_ADDR(a, b, c, d) (RTE_BE32((a << 24) + (b << 16) + (c << 8) + d))\<close>\<close>

definition BE_IPV4_ADDR :: "byte \<Rightarrow> byte \<Rightarrow> byte \<Rightarrow> byte \<Rightarrow> 32 word" where
  "BE_IPV4_ADDR a b c d =
     RTE_BE32 (push_bit 24 (ucast a) + push_bit 16 (ucast b) + push_bit 8 (ucast c) + ucast d)"

definition ip_to_int :: "string \<Rightarrow> 32 word option" where
  "ip_to_int ip_address =
     (if ip_address = [] then Some 0
      else
        let (ret, stored) = sscanf_ip ip_address
        in if ret = 4
           then Some (BE_IPV4_ADDR (stored ! 0) (stored ! 1) (stored ! 2) (stored ! 3))
           else None)"

section \<open>DocaSourceStage (doca\_source.cpp)\<close>

text \<open>
  The constructor. The four hardware objects are built by code outside the sources; whether
  each construction succeeds is a parameter. The result pairs the outcome with the
  hardware objects constructed, in order.
\<close>

datatype hw_resource = Context | ReceiveQueue | SemaphoreRing | FlowPipe

datatype stage_error = runtime_error string | hardware_error hw_resource

record doca_source_stage =
  m_context :: "string \<times> string"
  m_semaphore_size :: nat
  m_rxpipe_source_ip :: "32 word"

definition DocaSourceStage ::
  "(hw_resource \<Rightarrow> bool) \<Rightarrow> string \<Rightarrow> string \<Rightarrow> string \<Rightarrow> (stage_error + doca_source_stage) \<times> hw_resource list" where
  "DocaSourceStage hw_ok nic_pci_address gpu_pci_address source_ip_filter =
     (case ip_to_int source_ip_filter of
        None \<Rightarrow> (Inl (runtime_error ''source ip filter invalid''), [])
      | Some source_ip \<Rightarrow>
          if \<not> hw_ok Context then (Inl (hardware_error Context), [])
          else if \<not> hw_ok ReceiveQueue then (Inl (hardware_error ReceiveQueue), [Context])
          else if \<not> hw_ok SemaphoreRing then (Inl (hardware_error SemaphoreRing), [Context, ReceiveQueue])
          else if \<not> hw_ok FlowPipe then
            (Inl (hardware_error FlowPipe), [Context, ReceiveQueue, SemaphoreRing])
          else (Inr \<lparr> m_context = (nic_pci_address, gpu_pci_address),
                      m_semaphore_size = 1024,
                      m_rxpipe_source_ip = source_ip \<rparr>,
                [Context, ReceiveQueue, SemaphoreRing, FlowPipe]))"

text \<open>
  The polling loop of \<^verbatim>\<open>DocaSourceStage::build\<close>. Its state: the semaphore cursor
  \<^verbatim>\<open>semaphore_idx_d\<close> (an \<^verbatim>\<open>int32_t\<close>), the subscription, and what the loop has done so far:
  the element counts of the device vectors it allocated, the gather kernels it launched
  and the messages it passed to \<^verbatim>\<open>output.on_next\<close> (rows, payload bytes).
\<close>

record poll_state =
  semaphore_idx_d :: int
  is_subscribed :: bool
  device_allocations :: "nat list"
  gather_launches :: nat
  emitted_messages :: "(nat \<times> nat) list"

text \<open>
  What one iteration reads from its environment: the exit flag, the two scalars the
  receive kernel reports (\<^verbatim>\<open>int32_t\<close>), and whether device memory is available.
\<close>

record poll_cycle =
  exit_condition :: "32 word"
  packet_count_d :: int
  packet_size_total_d :: int
  device_memory_ok :: bool

datatype poll_error = bad_alloc | division_by_zero

text \<open>
  The thirteen \<^verbatim>\<open>rmm::device_uvector\<close>s of an iteration, by element count, in source order.
\<close>

definition per_field_allocations :: "nat \<Rightarrow> nat \<Rightarrow> nat list" where
  "per_field_allocations packet_count packet_size_total =
     replicate 7 packet_count @ [packet_count + 1] @ replicate 4 packet_count @ [packet_size_total]"

text \<open>
  One iteration of \<^verbatim>\<open>while (output.is_subscribed())\<close>. A negative element count, or
  exhausted device memory, makes the first allocation throw. \<^verbatim>\<open>%\<close> is C's remainder
  (\<open>smod\<close>); \<^verbatim>\<open>m_semaphore->size()\<close> is \<open>sem_size\<close>.
\<close>

definition poll_iteration :: "nat \<Rightarrow> poll_state \<Rightarrow> poll_cycle \<Rightarrow> poll_error + poll_state" where
  "poll_iteration sem_size s c =
     (if exit_condition c = 1 then Inr (s \<lparr> is_subscribed := False \<rparr>)
      else
        let packet_count = packet_count_d c in
        if packet_count = 0 then Inr s
        else
          let packet_size_total = packet_size_total_d c in
          if packet_count < 0 \<or> packet_size_total < 0 \<or> \<not> device_memory_ok c then Inl bad_alloc
          else if sem_size = 0 then Inl division_by_zero
          else
            let sem_idx_old = semaphore_idx_d s;
                sem_idx_new = (sem_idx_old + 1) smod int sem_size
            in Inr (s \<lparr> device_allocations := device_allocations s @
                           per_field_allocations (nat packet_count) (nat packet_size_total),
                         gather_launches := gather_launches s + 1,
                         semaphore_idx_d := sem_idx_new,
                         emitted_messages := emitted_messages s @
                           [(nat packet_count, nat packet_size_total)] \<rparr>))"

fun poll_loop :: "nat \<Rightarrow> poll_state \<Rightarrow> poll_cycle list \<Rightarrow> poll_error + poll_state" where
  "poll_loop sem_size s [] = Inr s"
| "poll_loop sem_size s (c # cs) =
     (if is_subscribed s then
        (case poll_iteration sem_size s c of
           Inl e \<Rightarrow> Inl e
         | Inr s' \<Rightarrow> poll_loop sem_size s' cs)
      else Inr s)"

text \<open>The state on entry to the loop: \<^verbatim>\<open>rmm::device_scalar<int32_t>(0, processing_stream)\<close>.\<close>

definition initial_poll_state :: poll_state where
  "initial_poll_state = \<lparr> semaphore_idx_d = 0, is_subscribed = True, device_allocations = [],
                           gather_launches = 0, emitted_messages = [] \<rparr>"


section \<open>DocaRxPipe (doca\_rx\_pipe.cpp)\<close>

text \<open>
  The parts of the DOCA Flow structures the constructor sets. A value-initialised
  structure (\<^verbatim>\<open>doca_flow_match match{}\<close>) has every field zero.
\<close>

datatype doca_error_t = DOCA_SUCCESS | DOCA_ERROR nat


datatype doca_flow_l4_type_ext =
  DOCA_FLOW_L4_TYPE_EXT_NONE | DOCA_FLOW_L4_TYPE_EXT_TCP | DOCA_FLOW_L4_TYPE_EXT_UDP




datatype doca_rss_flag = DOCA_FLOW_RSS_IPV4 | DOCA_FLOW_RSS_TCP

datatype doca_flow_fwd =
  DOCA_FLOW_FWD_NONE
| DOCA_FLOW_FWD_RSS "doca_rss_flag list" "nat list"
| DOCA_FLOW_FWD_PIPE nat
| DOCA_FLOW_FWD_DROP




















section \<open>Vocabulary of the statements about the IP filter\<close>

text \<open>A decimal octet: a non-empty run of digits whose value is at most 255.\<close>

definition octet_digits :: "string \<Rightarrow> bool" where
  "octet_digits ds \<longleftrightarrow> ds \<noteq> [] \<and> list_all is_digit ds \<and> decimal_value ds \<le> 255"

text \<open>The string \<open>a.b.c.d\<close>.\<close>

definition dotted_quad :: "string \<Rightarrow> string \<Rightarrow> string \<Rightarrow> string \<Rightarrow> string" where
  "dotted_quad da db dc dd = da @ ''.'' @ db @ ''.'' @ dc @ ''.'' @ dd"

text \<open>
  Four dotted decimal octets and nothing else: the strings \<open>a.b.c.d\<close> whose four parts are
  decimal octets.
\<close>

definition is_dotted_quad :: "string \<Rightarrow> bool" where
  "is_dotted_quad s \<longleftrightarrow>
     (\<exists>da db dc dd. s = dotted_quad da db dc dd
        \<and> octet_digits da \<and> octet_digits db \<and> octet_digits dc \<and> octet_digits dd)"

text \<open>
  A decimal number in the wider sense: optional white space, an optional sign and a
  non-empty run of digits, of any value.
\<close>

definition number_field :: "string \<Rightarrow> bool" where
  "number_field f \<longleftrightarrow>
     (\<exists>ws sign ds. f = ws @ sign @ ds \<and> list_all is_space ws
        \<and> (sign = [] \<or> sign = ''+'' \<or> sign = ''-'')
        \<and> ds \<noteq> [] \<and> list_all is_digit ds)"

text \<open>
  The strings that begin with four such numbers separated by dots, whatever follows the
  fourth. Every dotted quad is one of them; so are \<open>300.2.3.4\<close>, \<open>-1.2.3.4\<close> and
  \<open>1.2.3.4xyz\<close>, which are not dotted quads.
\<close>

definition begins_with_four_numbers :: "string \<Rightarrow> bool" where
  "begins_with_four_numbers s \<longleftrightarrow>
     (\<exists>f1 f2 f3 f4 rest. s = f1 @ ''.'' @ f2 @ ''.'' @ f3 @ ''.'' @ f4 @ rest
        \<and> number_field f1 \<and> number_field f2 \<and> number_field f3 \<and> number_field f4)"

text \<open>Hardware on which every construction succeeds.\<close>

definition all_hardware_ok :: "hw_resource \<Rightarrow> bool" where
  "all_hardware_ok r = True"


section \<open>Vocabulary of the statements about concatenation\<close>

text \<open>Per-field totals of a list of buffers.\<close>

definition packet_total :: "packet_data_buffer list \<Rightarrow> nat" where
  "packet_total bufs = sum_list (map m_num_packets bufs)"

definition header_bytes :: "packet_data_buffer list \<Rightarrow> nat" where
  "header_bytes bufs = sum_list (map (\<lambda>b. length (m_header_buffer b)) bufs)"

definition payload_bytes :: "packet_data_buffer list \<Rightarrow> nat" where
  "payload_bytes bufs = sum_list (map (\<lambda>b. length (m_payload_buffer b)) bufs)"

definition payload_sizes_bytes :: "packet_data_buffer list \<Rightarrow> nat" where
  "payload_sizes_bytes bufs = sum_list (map (\<lambda>b. length (m_payload_sizes_buffer b)) bufs)"

text \<open>The running totals of a window are those of the buffers it holds.\<close>

definition window_consistent :: "reader_window \<Rightarrow> bool" where
  "window_consistent w \<longleftrightarrow>
     ttl_packets w = packet_total (packets w) \<and>
     ttl_header_bytes w = header_bytes (packets w) \<and>
     ttl_payload_bytes w = payload_bytes (packets w) \<and>
     ttl_payload_sizes_bytes w = payload_sizes_bytes (packets w)"



text \<open>A turn of the reader inside its window during which the producer does nothing.\<close>

definition quiet_turn :: reader_turn where
  "quiet_turn = \<lparr> earlier = [], in_time = True, while_waiting = [] \<rparr>"

text \<open>A turn at which the clock has reached \<^verbatim>\<open>poll_end\<close>.\<close>

definition expiry_turn :: reader_turn where
  "expiry_turn = \<lparr> earlier = [], in_time = False, while_waiting = [] \<rparr>"


text \<open>
  The copies the loop is expected to issue for a list of buffers, from given starting
  offsets: three per buffer, each field at the sum of the sizes before it.
\<close>

fun copy_plan :: "nat \<Rightarrow> nat \<Rightarrow> nat \<Rightarrow> packet_data_buffer list \<Rightarrow> device_copy list" where
  "copy_plan ho po so [] = []"
| "copy_plan ho po so (b # bs) =
     [(Header, ho, length (m_header_buffer b)),
      (Payload, po, length (m_payload_buffer b)),
      (PayloadSizes, so, length (m_payload_sizes_buffer b))]
     @ copy_plan (ho + length (m_header_buffer b)) (po + length (m_payload_buffer b))
         (so + length (m_payload_sizes_buffer b)) bs"

text \<open>
  The invariant of the reader between turns: it has returned, or the totals of its window
  are those of the buffers in \<^verbatim>\<open>packets\<close>.
\<close>

definition reader_inv :: "reader_state \<Rightarrow> bool" where
  "reader_inv s \<longleftrightarrow> finished s \<or> window_consistent (window s)"



text \<open>Sample buffers: two capture cycles of 100 and 50 packets, and two single packets.\<close>

definition cycle_100 :: packet_data_buffer where
  "cycle_100 = \<lparr> m_num_packets = 100, m_stream = 0, m_header_buffer = replicate 400 1,
                  m_payload_buffer = replicate 6400 2, m_payload_sizes_buffer = replicate 400 3 \<rparr>"

definition cycle_50 :: packet_data_buffer where
  "cycle_50 = \<lparr> m_num_packets = 50, m_stream = 0, m_header_buffer = replicate 200 4,
                 m_payload_buffer = replicate 1500 5, m_payload_sizes_buffer = replicate 200 6 \<rparr>"

definition buffer_A :: packet_data_buffer where
  "buffer_A = \<lparr> m_num_packets = 1, m_stream = 0, m_header_buffer = [10, 0, 0, 5],
                 m_payload_buffer = [1, 2, 3], m_payload_sizes_buffer = [3, 0, 0, 0] \<rparr>"

definition buffer_B :: packet_data_buffer where
  "buffer_B = \<lparr> m_num_packets = 1, m_stream = 0, m_header_buffer = [10, 0, 0, 6],
                 m_payload_buffer = [4, 5], m_payload_sizes_buffer = [2, 0, 0, 0] \<rparr>"

text \<open>Sample poll cycles: an idle one, and one that drains 100 packets of 6400 bytes.\<close>

definition idle_cycle :: poll_cycle where
  "idle_cycle = \<lparr> exit_condition = 0, packet_count_d = 0, packet_size_total_d = 0,
                   device_memory_ok = True \<rparr>"

definition drain_cycle :: poll_cycle where
  "drain_cycle = \<lparr> exit_condition = 0, packet_count_d = 100, packet_size_total_d = 6400,
                    device_memory_ok = True \<rparr>"


section \<open>The buffers the channel hands to the reader\<close>

text \<open>
  The reception log is kept beside the reader and knows nothing of its totals, of
  \<^verbatim>\<open>concat_packet_buffers\<close> or of what it emits. It records, window by window, the buffers
  that \<^verbatim>\<open>await_read_until\<close> returns with status success. A window is the stretch between
  two evaluations of the outer loop condition; it is completed when the inner loop
  condition fails, by the deadline or by the close of the channel.
\<close>

record reception_log =
  completed_windows :: "packet_data_buffer list list"
  current_window :: "packet_data_buffer list"
  log_channel :: buffered_channel
  log_finished :: bool

text \<open>The channel at the moment a read of this turn returns.\<close>

definition channel_at_read :: "buffered_channel \<Rightarrow> reader_turn \<Rightarrow> buffered_channel" where
  "channel_at_read ch t =
     (let ch1 = foldl producer_acts ch (earlier t)
      in if ch_queue ch1 = [] then foldl producer_acts ch1 (while_waiting t) else ch1)"

text \<open>The window is still open at this turn: the deadline has not passed and the channel is not closed.\<close>

definition window_open :: "buffered_channel \<Rightarrow> reader_turn \<Rightarrow> bool" where
  "window_open ch t \<longleftrightarrow> in_time t \<and> \<not> is_channel_closed (foldl producer_acts ch (earlier t))"

definition log_turn :: "reception_log \<Rightarrow> reader_turn \<Rightarrow> reception_log" where
  "log_turn L t =
     (if log_finished L then L
      else if window_open (log_channel L) t then
        (case await_read_until (channel_at_read (log_channel L) t) of
           (Success, Some packet_buffer, ch') \<Rightarrow>
             L \<lparr> current_window := current_window L @ [packet_buffer], log_channel := ch' \<rparr>
         | (_, _, ch') \<Rightarrow> L \<lparr> log_channel := ch' \<rparr>)
      else
        L \<lparr> completed_windows := completed_windows L @ [current_window L],
            current_window := [],
            log_channel := foldl producer_acts (log_channel L) (earlier t),
            log_finished := is_channel_closed (foldl producer_acts (log_channel L) (earlier t)) \<rparr>)"

definition reception_log_of :: "buffered_channel \<Rightarrow> reader_turn list \<Rightarrow> reception_log" where
  "reception_log_of ch turns =
     foldl log_turn
       \<lparr> completed_windows = [], current_window = [], log_channel = ch,
         log_finished = is_channel_closed ch \<rparr> turns"

text \<open>The completed windows in which the reader received at least one buffer, oldest first.\<close>

definition received_windows :: "buffered_channel \<Rightarrow> reader_turn list \<Rightarrow> packet_data_buffer list list" where
  "received_windows ch turns =
     filter (\<lambda>w. w \<noteq> []) (completed_windows (reception_log_of ch turns))"

text \<open>
  The relation between a state of the reader and a state of the log that every turn
  preserves: same channel, same buffers held for the open window, and one emitted batch
  for each completed window that received a buffer, with that window's packets and
  payload.
\<close>

definition reader_follows_log :: "reader_state \<Rightarrow> reception_log \<Rightarrow> bool" where
  "reader_follows_log s L \<longleftrightarrow>
     channel s = log_channel L \<and> finished s = log_finished L
     \<and> packets (window s) = current_window L
     \<and> map m_num_packets (emitted s) = map packet_total (filter (\<lambda>w. w \<noteq> []) (completed_windows L))
     \<and> map m_payload_buffer (emitted s) =
         map (\<lambda>w. concat (map m_payload_buffer w)) (filter (\<lambda>w. w \<noteq> []) (completed_windows L))"


section \<open>Properties of on\_raw\_packet\_message\<close>

lemma of_le_bytes32_le_bytes32: "of_le_bytes32 (le_bytes32 w) = w"
  unfolding of_le_bytes32_def le_bytes32_def list.case
proof (rule bit_word_eqI)
  fix n assume n: "n < LENGTH(32)"
  consider "n < 8" | "8 \<le> n" "n < 16" | "16 \<le> n" "n < 24" | "24 \<le> n" by linarith
  then show "bit (ucast (ucast w :: byte) OR push_bit 8 (ucast (ucast (drop_bit 8 w) :: byte)) OR
       push_bit 16 (ucast (ucast (drop_bit 16 w) :: byte)) OR push_bit 24 (ucast (ucast (drop_bit 24 w) :: byte)) :: 32 word) n = bit w n"
    using n by cases (auto simp add: bit_simps)
qed

lemma uint32_array_of_bytes: "uint32_array_of (uint32_array_bytes ws) = ws"
  by (induction ws)
     (simp_all add: uint32_array_bytes_def of_le_bytes32_le_bytes32 [unfolded le_bytes32_def] le_bytes32_def)

lemma length_uint32_array_bytes: "length (uint32_array_bytes ws) = 4 * length ws"
  by (induction ws) (simp_all add: uint32_array_bytes_def le_bytes32_def)

lemma take_uint32_array_bytes: "take (n * 4) (uint32_array_bytes ws) = uint32_array_bytes (take n ws)"
proof (induction ws arbitrary: n)
  case Nil
  then show ?case by (simp add: uint32_array_bytes_def)
next
  case (Cons w ws)
  show ?case
  proof (cases n)
    case 0
    then show ?thesis by (simp add: uint32_array_bytes_def)
  next
    case (Suc m)
    have "take (m * 4) (uint32_array_bytes ws) = uint32_array_bytes (take m ws)"
      by (rule Cons.IH)
    moreover have "Suc m * 4 = Suc (Suc (Suc (Suc (m * 4))))" by simp
    ultimately show ?thesis using Suc
      by (simp add: uint32_array_bytes_def le_bytes32_def del: mult_Suc)
  qed
qed

lemma length_kernel_store: "length (kernel_store buf out) = length buf"
  by (simp add: kernel_store_def)

lemma header_size_no_wrap:
  "unat c \<le> MAX_PKT_RECEIVE \<Longrightarrow> unat (c * (4 :: 32 word)) = unat c * 4"
  by (simp add: unat_word_ariths MAX_PKT_RECEIVE_def)

text \<open>
  Claim C1. Every non-empty capture batch (at most \<open>MAX_PKT_RECEIVE\<close> packets, with a size
  entry for each packet) is turned into a PacketDataBuffer whose three buffers agree:
  the header buffer holds packet count times the header stride bytes, the payload-sizes
  buffer holds exactly one 32-bit entry per packet (the packets' payload sizes), and the
  payload buffer's byte size is the sum of those per-packet payload sizes.
\<close>

theorem packet_data_buffer_consistent:
  assumes nonempty: "0 < unat (count raw_msg)"
      and bounded: "unat (count raw_msg) \<le> MAX_PKT_RECEIVE"
      and sizes: "unat (count raw_msg) \<le> length (pkt_pld_size_list raw_msg)"
  shows "\<exists>b. on_raw_packet_message k s raw_msg = Some b
            \<and> m_num_packets b = unat (count raw_msg)
            \<and> length (m_header_buffer b) = m_num_packets b * header_stride
            \<and> length (m_payload_sizes_buffer b) = m_num_packets b * 4
            \<and> uint32_array_of (m_payload_sizes_buffer b) = take (m_num_packets b) (pkt_pld_size_list raw_msg)
            \<and> length (uint32_array_of (m_payload_sizes_buffer b)) = m_num_packets b
            \<and> length (m_payload_buffer b) = sum_list (map unat (uint32_array_of (m_payload_sizes_buffer b)))"
proof -
  let ?n = "unat (count raw_msg)"
  have fits: "?n * 4 \<le> length (uint32_array_bytes (pkt_pld_size_list raw_msg))"
    using sizes by (simp add: length_uint32_array_bytes)
  have copy: "cudaMemcpyAsync (replicate (?n * 4) 0) 0 (uint32_array_bytes (pkt_pld_size_list raw_msg)) (?n * 4)
      = Some (uint32_array_bytes (take ?n (pkt_pld_size_list raw_msg)))"
    using fits by (simp add: cudaMemcpyAsync_def take_uint32_array_bytes)
  have len: "length (take ?n (pkt_pld_size_list raw_msg)) = ?n"
    using sizes by simp
  show ?thesis
    using copy len
    by (simp add: on_raw_packet_message_def Let_def new_packet_data_buffer_def length_kernel_store
        header_size_no_wrap [OF bounded] header_stride_def gather_sizes_def
        uint32_array_of_bytes length_uint32_array_bytes)
qed

theorem packet_data_buffer_consistent_witness:
  "\<exists>b. on_raw_packet_message \<lparr> gather_payload = (\<lambda>_. [1, 2, 3, 4, 5, 6, 7, 8]), gather_header = (\<lambda>_. [10, 0, 0, 5]) \<rparr> 0
          \<lparr> count = 2, pkt_pld_size_list = [3, 5] \<rparr> = Some b
     \<and> m_num_packets b = 2
     \<and> length (m_header_buffer b) = 8
     \<and> uint32_array_of (m_payload_sizes_buffer b) = [3, 5]
     \<and> length (m_payload_buffer b) = 8"
  using packet_data_buffer_consistent
    [of "\<lparr> count = 2, pkt_pld_size_list = [3, 5] \<rparr>"
        "\<lparr> gather_payload = (\<lambda>_. [1, 2, 3, 4, 5, 6, 7, 8]), gather_header = (\<lambda>_. [10, 0, 0, 5]) \<rparr>" 0]
  by (auto simp add: header_stride_def MAX_PKT_RECEIVE_def)


section \<open>Properties of concat\_packet\_buffers\<close>

lemma cudaMemcpyAsync_segment:
  assumes "length pre = off" "length src \<le> length mid"
  shows "cudaMemcpyAsync (pre @ mid @ post) off src (length src) = Some (pre @ src @ drop (length src) mid @ post)"
  using assms by (simp add: cudaMemcpyAsync_def)

lemma concat_step_fills:
  assumes h: "m_header_buffer (combined_buffer st) = hp @ hm @ hq" "length hp = curr_header_offset st"
             "length (m_header_buffer b) \<le> length hm"
      and p: "m_payload_buffer (combined_buffer st) = pp @ pm @ pq" "length pp = curr_payload_offset st"
             "length (m_payload_buffer b) \<le> length pm"
      and z: "m_payload_sizes_buffer (combined_buffer st) = zp @ zm @ zq" "length zp = curr_payload_sizes_offset st"
             "length (m_payload_sizes_buffer b) \<le> length zm"
  shows "concat_step st b = Some
     \<lparr> combined_buffer = (combined_buffer st)
           \<lparr> m_header_buffer := (hp @ m_header_buffer b) @ drop (length (m_header_buffer b)) hm @ hq,
             m_payload_buffer := (pp @ m_payload_buffer b) @ drop (length (m_payload_buffer b)) pm @ pq,
             m_payload_sizes_buffer := (zp @ m_payload_sizes_buffer b) @ drop (length (m_payload_sizes_buffer b)) zm @ zq \<rparr>,
       curr_header_offset = curr_header_offset st + length (m_header_buffer b),
       curr_payload_offset = curr_payload_offset st + length (m_payload_buffer b),
       curr_payload_sizes_offset = curr_payload_sizes_offset st + length (m_payload_sizes_buffer b),
       copies = copies st @ copy_plan (curr_header_offset st) (curr_payload_offset st) (curr_payload_sizes_offset st) [b] \<rparr>"
  using cudaMemcpyAsync_segment [of hp "curr_header_offset st" "m_header_buffer b" hm hq]
        cudaMemcpyAsync_segment [of pp "curr_payload_offset st" "m_payload_buffer b" pm pq]
        cudaMemcpyAsync_segment [of zp "curr_payload_sizes_offset st" "m_payload_sizes_buffer b" zm zq]
        assms
  by (simp add: concat_step_def Let_def)

lemma concat_loop_fills:
  assumes "m_header_buffer (combined_buffer st) = hp @ hm @ hq" "length hp = curr_header_offset st"
          "length hm = header_bytes bufs"
      and "m_payload_buffer (combined_buffer st) = pp @ pm @ pq" "length pp = curr_payload_offset st"
          "length pm = payload_bytes bufs"
      and "m_payload_sizes_buffer (combined_buffer st) = zp @ zm @ zq" "length zp = curr_payload_sizes_offset st"
          "length zm = payload_sizes_bytes bufs"
  shows "\<exists>st'. concat_loop st bufs = Some st'
     \<and> m_header_buffer (combined_buffer st') = hp @ concat (map m_header_buffer bufs) @ hq
     \<and> m_payload_buffer (combined_buffer st') = pp @ concat (map m_payload_buffer bufs) @ pq
     \<and> m_payload_sizes_buffer (combined_buffer st') = zp @ concat (map m_payload_sizes_buffer bufs) @ zq
     \<and> m_num_packets (combined_buffer st') = m_num_packets (combined_buffer st)
     \<and> m_stream (combined_buffer st') = m_stream (combined_buffer st)
     \<and> copies st' = copies st @ copy_plan (curr_header_offset st) (curr_payload_offset st) (curr_payload_sizes_offset st) bufs"
  using assms
proof (induction bufs arbitrary: st hp hm pp pm zp zm)
  case Nil
  then show ?case by (simp add: header_bytes_def payload_bytes_def payload_sizes_bytes_def)
next
  case (Cons b bufs)
  let ?st1 = "\<lparr> combined_buffer = (combined_buffer st)
           \<lparr> m_header_buffer := (hp @ m_header_buffer b) @ drop (length (m_header_buffer b)) hm @ hq,
             m_payload_buffer := (pp @ m_payload_buffer b) @ drop (length (m_payload_buffer b)) pm @ pq,
             m_payload_sizes_buffer := (zp @ m_payload_sizes_buffer b) @ drop (length (m_payload_sizes_buffer b)) zm @ zq \<rparr>,
       curr_header_offset = curr_header_offset st + length (m_header_buffer b),
       curr_payload_offset = curr_payload_offset st + length (m_payload_buffer b),
       curr_payload_sizes_offset = curr_payload_sizes_offset st + length (m_payload_sizes_buffer b),
       copies = copies st @ copy_plan (curr_header_offset st) (curr_payload_offset st) (curr_payload_sizes_offset st) [b] \<rparr>"
  have step: "concat_step st b = Some ?st1"
    using Cons.prems
    by (intro concat_step_fills) (simp_all add: header_bytes_def payload_bytes_def payload_sizes_bytes_def)
  have "\<exists>st'. concat_loop ?st1 bufs = Some st'
     \<and> m_header_buffer (combined_buffer st') = (hp @ m_header_buffer b) @ concat (map m_header_buffer bufs) @ hq
     \<and> m_payload_buffer (combined_buffer st') = (pp @ m_payload_buffer b) @ concat (map m_payload_buffer bufs) @ pq
     \<and> m_payload_sizes_buffer (combined_buffer st') = (zp @ m_payload_sizes_buffer b) @ concat (map m_payload_sizes_buffer bufs) @ zq
     \<and> m_num_packets (combined_buffer st') = m_num_packets (combined_buffer ?st1)
     \<and> m_stream (combined_buffer st') = m_stream (combined_buffer ?st1)
     \<and> copies st' = copies ?st1 @ copy_plan (curr_header_offset ?st1) (curr_payload_offset ?st1) (curr_payload_sizes_offset ?st1) bufs"
    using Cons.prems
    by (intro Cons.IH [of ?st1 "hp @ m_header_buffer b" "drop (length (m_header_buffer b)) hm"
                          "pp @ m_payload_buffer b" "drop (length (m_payload_buffer b)) pm"
                          "zp @ m_payload_sizes_buffer b" "drop (length (m_payload_sizes_buffer b)) zm"])
       (simp_all add: header_bytes_def payload_bytes_def payload_sizes_bytes_def)
  then obtain st' where loop: "concat_loop ?st1 bufs = Some st'"
     and res: "m_header_buffer (combined_buffer st') = (hp @ m_header_buffer b) @ concat (map m_header_buffer bufs) @ hq"
       "m_payload_buffer (combined_buffer st') = (pp @ m_payload_buffer b) @ concat (map m_payload_buffer bufs) @ pq"
       "m_payload_sizes_buffer (combined_buffer st') = (zp @ m_payload_sizes_buffer b) @ concat (map m_payload_sizes_buffer bufs) @ zq"
       "m_num_packets (combined_buffer st') = m_num_packets (combined_buffer ?st1)"
       "m_stream (combined_buffer st') = m_stream (combined_buffer ?st1)"
       "copies st' = copies ?st1 @ copy_plan (curr_header_offset ?st1) (curr_payload_offset ?st1) (curr_payload_sizes_offset ?st1) bufs"
    by blast
  have "concat_loop st (b # bufs) = Some st'"
    using step loop by simp
  then show ?case
    using res by simp
qed





lemma foldl_accumulate:
  "packets (foldl accumulate w bufs) = packets w @ bufs"
  "ttl_packets (foldl accumulate w bufs) = ttl_packets w + packet_total bufs"
  "ttl_header_bytes (foldl accumulate w bufs) = ttl_header_bytes w + header_bytes bufs"
  "ttl_payload_bytes (foldl accumulate w bufs) = ttl_payload_bytes w + payload_bytes bufs"
  "ttl_payload_sizes_bytes (foldl accumulate w bufs) = ttl_payload_sizes_bytes w + payload_sizes_bytes bufs"
  by (induction bufs arbitrary: w)
     (simp_all add: accumulate_def packet_total_def header_bytes_def payload_bytes_def payload_sizes_bytes_def)

lemma window_consistent_accumulate_all: "window_consistent (accumulate_all bufs)"
  by (simp add: window_consistent_def accumulate_all_def foldl_accumulate empty_window_def)

lemma packets_accumulate_all: "packets (accumulate_all bufs) = bufs"
  by (simp add: accumulate_all_def foldl_accumulate empty_window_def)

lemma window_consistent_accumulate:
  "window_consistent w \<Longrightarrow> window_consistent (accumulate w b)"
  by (simp add: window_consistent_def accumulate_def packet_total_def header_bytes_def
      payload_bytes_def payload_sizes_bytes_def)

lemma concat_window_copies_consistent:
  assumes "window_consistent w" "packets w \<noteq> []"
  shows "\<exists>combined. concat_window_copies w =
            Some (combined, if length (packets w) = 1 then [] else copy_plan 0 0 0 (packets w))
     \<and> m_header_buffer combined = concat (map m_header_buffer (packets w))
     \<and> m_payload_buffer combined = concat (map m_payload_buffer (packets w))
     \<and> m_payload_sizes_buffer combined = concat (map m_payload_sizes_buffer (packets w))
     \<and> m_num_packets combined = packet_total (packets w)
     \<and> m_stream combined = m_stream (hd (packets w))"
proof (cases "packets w")
  case Nil
  then show ?thesis using assms by simp
next
  case (Cons b bs)
  show ?thesis
  proof (cases bs)
    case Nil
    then show ?thesis using Cons
      by (simp add: concat_window_copies_def concat_packet_buffers_copies_def packet_total_def)
  next
    case (Cons b2 bs2)
    let ?st = "\<lparr> combined_buffer = new_packet_data_buffer (ttl_packets w) (ttl_header_bytes w)
                    (ttl_payload_bytes w) (ttl_payload_sizes_bytes w) (m_stream b),
                 curr_header_offset = 0, curr_payload_offset = 0, curr_payload_sizes_offset = 0,
                 copies = [] \<rparr>"
    have "\<exists>st'. concat_loop ?st (packets w) = Some st'
     \<and> m_header_buffer (combined_buffer st') = [] @ concat (map m_header_buffer (packets w)) @ []
     \<and> m_payload_buffer (combined_buffer st') = [] @ concat (map m_payload_buffer (packets w)) @ []
     \<and> m_payload_sizes_buffer (combined_buffer st') = [] @ concat (map m_payload_sizes_buffer (packets w)) @ []
     \<and> m_num_packets (combined_buffer st') = m_num_packets (combined_buffer ?st)
     \<and> m_stream (combined_buffer st') = m_stream (combined_buffer ?st)
     \<and> copies st' = copies ?st @ copy_plan (curr_header_offset ?st) (curr_payload_offset ?st) (curr_payload_sizes_offset ?st) (packets w)"
      using assms(1)
      by (intro concat_loop_fills [where st = ?st and bufs = "packets w"
                and hp = "[]" and hm = "replicate (ttl_header_bytes w) 0" and hq = "[]"
                and pp = "[]" and pm = "replicate (ttl_payload_bytes w) 0" and pq = "[]"
                and zp = "[]" and zm = "replicate (ttl_payload_sizes_bytes w) 0" and zq = "[]"])
         (simp_all add: new_packet_data_buffer_def window_consistent_def)
    then obtain st' where loop: "concat_loop ?st (packets w) = Some st'"
      and res: "m_header_buffer (combined_buffer st') = concat (map m_header_buffer (packets w))"
        "m_payload_buffer (combined_buffer st') = concat (map m_payload_buffer (packets w))"
        "m_payload_sizes_buffer (combined_buffer st') = concat (map m_payload_sizes_buffer (packets w))"
        "m_num_packets (combined_buffer st') = ttl_packets w"
        "m_stream (combined_buffer st') = m_stream b"
        "copies st' = copy_plan 0 0 0 (packets w)"
      by (auto simp add: new_packet_data_buffer_def)
    have "concat_window_copies w = Some (combined_buffer st', copy_plan 0 0 0 (packets w))"
      using loop res(6) \<open>packets w = b # bs\<close> \<open>bs = b2 # bs2\<close>
      by (simp add: concat_window_copies_def concat_packet_buffers_copies_def)
    then show ?thesis
      using res assms(1) \<open>packets w = b # bs\<close> \<open>bs = b2 # bs2\<close>
      by (simp add: window_consistent_def)
  qed
qed

lemma concat_window_eq: "concat_window w = map_option fst (concat_window_copies w)"
  by (simp add: concat_window_def concat_window_copies_def concat_packet_buffers_def)

lemma concat_window_consistent:
  assumes "window_consistent w" "packets w \<noteq> []"
  shows "\<exists>combined. concat_window w = Some combined
     \<and> m_header_buffer combined = concat (map m_header_buffer (packets w))
     \<and> m_payload_buffer combined = concat (map m_payload_buffer (packets w))
     \<and> m_payload_sizes_buffer combined = concat (map m_payload_sizes_buffer (packets w))
     \<and> m_num_packets combined = packet_total (packets w)"
  using concat_window_copies_consistent [OF assms] by (auto simp add: concat_window_eq)

lemma length_concat_fields:
  "length (concat (map m_header_buffer bufs)) = header_bytes bufs"
  "length (concat (map m_payload_buffer bufs)) = payload_bytes bufs"
  "length (concat (map m_payload_sizes_buffer bufs)) = payload_sizes_bytes bufs"
  by (simp_all add: header_bytes_def payload_bytes_def payload_sizes_bytes_def length_concat comp_def)

lemma merge_buffers_totals:
  assumes "bufs \<noteq> []"
  shows "\<exists>r. merge_buffers bufs = Some r
     \<and> m_num_packets r = packet_total bufs
     \<and> m_header_buffer r = concat (map m_header_buffer bufs)
     \<and> m_payload_buffer r = concat (map m_payload_buffer bufs)
     \<and> m_payload_sizes_buffer r = concat (map m_payload_sizes_buffer bufs)"
  using concat_window_consistent [OF window_consistent_accumulate_all, of bufs] assms
  by (auto simp add: merge_buffers_def packets_accumulate_all)

section \<open>Properties of buffer\_reader\<close>

lemma emit_window_empty:
  "packets (window s) = [] \<Longrightarrow> emit_window s = Some s"
  by (simp add: emit_window_def)

lemma emit_window_nonempty:
  assumes "window_consistent (window s)" "packets (window s) \<noteq> []"
  shows "\<exists>combined. emit_window s =
             Some (s \<lparr> emitted := emitted s @ [combined], window := (window s) \<lparr> packets := [] \<rparr> \<rparr>)
     \<and> m_header_buffer combined = concat (map m_header_buffer (packets (window s)))
     \<and> m_payload_buffer combined = concat (map m_payload_buffer (packets (window s)))
     \<and> m_payload_sizes_buffer combined = concat (map m_payload_sizes_buffer (packets (window s)))
     \<and> m_num_packets combined = packet_total (packets (window s))"
  using concat_window_consistent [OF assms] assms(2) by (auto simp add: emit_window_def)

lemma reader_inv_outer_loop_head:
  "packets (window s) = [] \<Longrightarrow> reader_inv (outer_loop_head s)"
  by (simp add: reader_inv_def outer_loop_head_def window_consistent_def packet_total_def
      header_bytes_def payload_bytes_def payload_sizes_bytes_def)

lemma reader_turn_step_in_window:
  assumes "\<not> finished s" "in_time t" "\<not> is_channel_closed (foldl producer_acts (channel s) (earlier t))"
  shows "\<exists>s'. reader_turn_step s t = Some s' \<and> emitted s' = emitted s \<and> \<not> finished s'
      \<and> (window s' = window s \<or> (\<exists>b. window s' = accumulate (window s) b))"
  using assms
  by (auto simp add: reader_turn_step_def Let_def await_read_until_def split: list.splits)

lemma reader_turn_step_window_end:
  assumes "\<not> finished s" "window_consistent (window s)"
     "\<not> (in_time t \<and> \<not> is_channel_closed (foldl producer_acts (channel s) (earlier t)))"
  shows "\<exists>s'. reader_turn_step s t = Some s'
      \<and> channel s' = foldl producer_acts (channel s) (earlier t)
      \<and> finished s' = is_channel_closed (foldl producer_acts (channel s) (earlier t))
      \<and> packets (window s') = []
      \<and> reader_inv s'
      \<and> (if packets (window s) = [] then emitted s' = emitted s
          else \<exists>batch. emitted s' = emitted s @ [batch]
             \<and> m_header_buffer batch = concat (map m_header_buffer (packets (window s)))
             \<and> m_payload_buffer batch = concat (map m_payload_buffer (packets (window s)))
             \<and> m_payload_sizes_buffer batch = concat (map m_payload_sizes_buffer (packets (window s)))
             \<and> m_num_packets batch = packet_total (packets (window s)))"
proof (cases "packets (window s) = []")
  case True
  let ?s1 = "s \<lparr> channel := foldl producer_acts (channel s) (earlier t) \<rparr>"
  have "emit_window ?s1 = Some ?s1" using True by (simp add: emit_window_empty)
  moreover have "reader_inv (outer_loop_head ?s1)" using True by (simp add: reader_inv_outer_loop_head)
  ultimately show ?thesis
    using assms True
    by (auto simp add: reader_turn_step_def Let_def outer_loop_head_def)
next
  case False
  let ?s1 = "s \<lparr> channel := foldl producer_acts (channel s) (earlier t) \<rparr>"
  obtain combined where e: "emit_window ?s1 =
             Some (?s1 \<lparr> emitted := emitted ?s1 @ [combined], window := (window ?s1) \<lparr> packets := [] \<rparr> \<rparr>)"
     and c: "m_header_buffer combined = concat (map m_header_buffer (packets (window s)))"
      "m_payload_buffer combined = concat (map m_payload_buffer (packets (window s)))"
      "m_payload_sizes_buffer combined = concat (map m_payload_sizes_buffer (packets (window s)))"
      "m_num_packets combined = packet_total (packets (window s))"
    using emit_window_nonempty [of ?s1] assms(2) False by auto
  have "reader_inv (outer_loop_head (?s1 \<lparr> emitted := emitted ?s1 @ [combined], window := (window ?s1) \<lparr> packets := [] \<rparr> \<rparr>))"
    by (simp add: reader_inv_outer_loop_head)
  then show ?thesis
    using assms e c False
    by (auto simp add: reader_turn_step_def Let_def outer_loop_head_def)
qed

lemma reader_turn_step_inv:
  assumes "reader_inv s"
  shows "\<exists>s'. reader_turn_step s t = Some s' \<and> reader_inv s'"
proof (cases "finished s")
  case True
  then show ?thesis using assms by (simp add: reader_turn_step_def)
next
  case nf: False
  then have wc: "window_consistent (window s)" using assms by (simp add: reader_inv_def)
  show ?thesis
  proof (cases "in_time t \<and> \<not> is_channel_closed (foldl producer_acts (channel s) (earlier t))")
    case True
    then obtain s' where "reader_turn_step s t = Some s'"
        "window s' = window s \<or> (\<exists>b. window s' = accumulate (window s) b)"
      using reader_turn_step_in_window [OF nf] by blast
    then show ?thesis using wc window_consistent_accumulate
      by (auto simp add: reader_inv_def)
  next
    case False
    then show ?thesis using reader_turn_step_window_end [OF nf wc False] by blast
  qed
qed

lemma reader_turns_inv:
  "reader_inv s \<Longrightarrow> \<exists>s'. reader_turns s ts = Some s' \<and> reader_inv s'"
proof (induction ts arbitrary: s)
  case Nil
  then show ?case by simp
next
  case (Cons t ts)
  obtain s1 where "reader_turn_step s t = Some s1" "reader_inv s1"
    using reader_turn_step_inv [OF Cons.prems] by blast
  then show ?case using Cons.IH [of s1] by simp
qed

lemma buffer_reader_inv:
  "\<exists>s. buffer_reader ch turns = Some s \<and> reader_inv s"
  unfolding buffer_reader_def
  by (rule reader_turns_inv) (simp add: reader_inv_outer_loop_head empty_window_def)

lemma reader_turns_finished:
  "finished s \<Longrightarrow> reader_turns s ts = Some s"
  by (induction ts) (simp_all add: reader_turn_step_def)

lemma buffer_reader_closed_at_start:
  "ch_closed ch \<Longrightarrow>
     buffer_reader ch turns =
       Some \<lparr> channel = ch, window = empty_window, emitted = [], finished = True \<rparr>"
  by (simp add: buffer_reader_def outer_loop_head_def is_channel_closed_def reader_turns_finished)



lemma closing_run:
  "buffer_reader \<lparr> ch_queue = [], ch_closed = False \<rparr>
      [\<lparr> earlier = [], in_time = True, while_waiting = [Write buffer_A, Write buffer_B, Close] \<rparr>]
   = Some \<lparr> channel = \<lparr> ch_queue = [buffer_B], ch_closed = True \<rparr>,
            window = accumulate_all [buffer_A],
            emitted = [], finished = False \<rparr>"
  by (simp add: buffer_reader_def outer_loop_head_def is_channel_closed_def reader_turn_step_def
      producer_acts_def await_write_def await_read_until_def accumulate_all_def empty_window_def
      close_channel_def)





text \<open>
  Claim C5. Merging \<open>[A, B, C]\<close> on the accumulation path gives the same total packet
  count, header bytes, payload bytes and payload-sizes bytes as merging \<open>[A]\<close> first and
  then merging the result with \<open>[B, C]\<close>; the totals of any merge are the sums of the
  per-buffer totals.
\<close>

theorem merge_totals_associative:
  "\<exists>abc a a_bc.
       merge_buffers [A, B, C] = Some abc
     \<and> merge_buffers [A] = Some a
     \<and> merge_buffers [a, B, C] = Some a_bc
     \<and> m_num_packets abc = m_num_packets a_bc
     \<and> length (m_header_buffer abc) = length (m_header_buffer a_bc)
     \<and> length (m_payload_buffer abc) = length (m_payload_buffer a_bc)
     \<and> length (m_payload_sizes_buffer abc) = length (m_payload_sizes_buffer a_bc)
     \<and> m_num_packets abc = packet_total [A, B, C]
     \<and> length (m_header_buffer abc) = header_bytes [A, B, C]
     \<and> length (m_payload_buffer abc) = payload_bytes [A, B, C]
     \<and> length (m_payload_sizes_buffer abc) = payload_sizes_bytes [A, B, C]
     \<and> (\<exists>r. merge_buffers (b # bs) = Some r
            \<and> m_num_packets r = packet_total (b # bs)
            \<and> length (m_header_buffer r) = header_bytes (b # bs)
            \<and> length (m_payload_buffer r) = payload_bytes (b # bs)
            \<and> length (m_payload_sizes_buffer r) = payload_sizes_bytes (b # bs))"
proof -
  have general: "\<exists>r. merge_buffers (b # bs) = Some r
            \<and> m_num_packets r = packet_total (b # bs)
            \<and> length (m_header_buffer r) = header_bytes (b # bs)
            \<and> length (m_payload_buffer r) = payload_bytes (b # bs)
            \<and> length (m_payload_sizes_buffer r) = payload_sizes_bytes (b # bs)"
    using merge_buffers_totals [of "b # bs"] length_concat_fields [of "b # bs"] by auto
  obtain abc where abc: "merge_buffers [A, B, C] = Some abc"
      "m_num_packets abc = packet_total [A, B, C]"
      "m_header_buffer abc = concat (map m_header_buffer [A, B, C])"
      "m_payload_buffer abc = concat (map m_payload_buffer [A, B, C])"
      "m_payload_sizes_buffer abc = concat (map m_payload_sizes_buffer [A, B, C])"
    using merge_buffers_totals [of "[A, B, C]"] by auto
  obtain a where a: "merge_buffers [A] = Some a"
      "m_num_packets a = packet_total [A]"
      "m_header_buffer a = concat (map m_header_buffer [A])"
      "m_payload_buffer a = concat (map m_payload_buffer [A])"
      "m_payload_sizes_buffer a = concat (map m_payload_sizes_buffer [A])"
    using merge_buffers_totals [of "[A]"] by auto
  obtain a_bc where a_bc: "merge_buffers [a, B, C] = Some a_bc"
      "m_num_packets a_bc = packet_total [a, B, C]"
      "m_header_buffer a_bc = concat (map m_header_buffer [a, B, C])"
      "m_payload_buffer a_bc = concat (map m_payload_buffer [a, B, C])"
      "m_payload_sizes_buffer a_bc = concat (map m_payload_sizes_buffer [a, B, C])"
    using merge_buffers_totals [of "[a, B, C]"] by auto
  have "m_num_packets abc = m_num_packets a_bc"
       "length (m_header_buffer abc) = length (m_header_buffer a_bc)"
       "length (m_payload_buffer abc) = length (m_payload_buffer a_bc)"
       "length (m_payload_sizes_buffer abc) = length (m_payload_sizes_buffer a_bc)"
       "m_num_packets abc = packet_total [A, B, C]"
       "length (m_header_buffer abc) = header_bytes [A, B, C]"
       "length (m_payload_buffer abc) = payload_bytes [A, B, C]"
       "length (m_payload_sizes_buffer abc) = payload_sizes_bytes [A, B, C]"
    using abc a a_bc
    by (simp_all add: packet_total_def header_bytes_def payload_bytes_def payload_sizes_bytes_def)
  then show ?thesis
    using abc(1) a(1) a_bc(1) general by blast
qed

theorem merge_totals_associative_witness:
  "map_option m_num_packets (merge_buffers
        [\<lparr> m_num_packets = 5, m_stream = 0, m_header_buffer = replicate 20 1,
            m_payload_buffer = replicate 7 2, m_payload_sizes_buffer = replicate 20 3 \<rparr>,
         \<lparr> m_num_packets = 4, m_stream = 0, m_header_buffer = replicate 16 4,
            m_payload_buffer = replicate 9 5, m_payload_sizes_buffer = replicate 16 6 \<rparr>,
         \<lparr> m_num_packets = 1, m_stream = 0, m_header_buffer = replicate 4 7,
            m_payload_buffer = [], m_payload_sizes_buffer = replicate 4 0 \<rparr>]) = Some 10
   \<and> map_option (length \<circ> m_payload_buffer) (merge_buffers
        [\<lparr> m_num_packets = 5, m_stream = 0, m_header_buffer = replicate 20 1,
            m_payload_buffer = replicate 7 2, m_payload_sizes_buffer = replicate 20 3 \<rparr>,
         \<lparr> m_num_packets = 4, m_stream = 0, m_header_buffer = replicate 16 4,
            m_payload_buffer = replicate 9 5, m_payload_sizes_buffer = replicate 16 6 \<rparr>,
         \<lparr> m_num_packets = 1, m_stream = 0, m_header_buffer = replicate 4 7,
            m_payload_buffer = [], m_payload_sizes_buffer = replicate 4 0 \<rparr>]) = Some 16"
  using merge_totals_associative
    [of "\<lparr> m_num_packets = 5, m_stream = 0, m_header_buffer = replicate 20 1,
            m_payload_buffer = replicate 7 2, m_payload_sizes_buffer = replicate 20 3 \<rparr>"
        "\<lparr> m_num_packets = 4, m_stream = 0, m_header_buffer = replicate 16 4,
            m_payload_buffer = replicate 9 5, m_payload_sizes_buffer = replicate 16 6 \<rparr>"
        "\<lparr> m_num_packets = 1, m_stream = 0, m_header_buffer = replicate 4 7,
            m_payload_buffer = [], m_payload_sizes_buffer = replicate 4 0 \<rparr>"]
  by (auto simp add: packet_total_def payload_bytes_def)

text \<open>
  Every turn of the reader keeps it in step with the reception log: a buffer that
  \<^verbatim>\<open>await_read_until\<close> returns goes into \<^verbatim>\<open>packets\<close>, and the end of a window emits the
  concatenation of exactly the buffers logged for it.
\<close>

lemma reader_turn_step_follows_log:
  assumes "reader_follows_log s L" "reader_inv s"
  shows "\<exists>s'. reader_turn_step s t = Some s' \<and> reader_follows_log s' (log_turn L t) \<and> reader_inv s'"
proof (cases "finished s")
  case True
  then show ?thesis using assms
    by (simp add: reader_turn_step_def log_turn_def reader_follows_log_def)
next
  case running: False
  then have wc: "window_consistent (window s)" using assms(2) by (simp add: reader_inv_def)
  have lf: "\<not> log_finished L" "log_channel L = channel s"
    using assms(1) running by (simp_all add: reader_follows_log_def)
  show ?thesis
  proof (cases "window_open (channel s) t")
    case True
    show ?thesis
    proof (cases "ch_queue (channel_at_read (channel s) t)")
      case Nil
      then have "reader_turn_step s t = Some (s \<lparr> channel := channel_at_read (channel s) t \<rparr>)"
        using running True
        by (simp add: reader_turn_step_def window_open_def
            channel_at_read_def await_read_until_def Let_def)
      then show ?thesis
        using assms lf True Nil
        by (simp add: log_turn_def reader_follows_log_def reader_inv_def await_read_until_def)
    next
      case (Cons b rest)
      then have "reader_turn_step s t =
          Some (s \<lparr> channel := (channel_at_read (channel s) t) \<lparr> ch_queue := rest \<rparr>,
                    window := accumulate (window s) b \<rparr>)"
        using running True
        by (simp add: reader_turn_step_def window_open_def
            channel_at_read_def await_read_until_def Let_def)
      then show ?thesis
        using assms lf True Cons wc window_consistent_accumulate [OF wc, of b]
        by (simp add: log_turn_def reader_follows_log_def reader_inv_def accumulate_def
            await_read_until_def)
    qed
  next
    case False
    then have ending: "\<not> (in_time t \<and> \<not> is_channel_closed (foldl producer_acts (channel s) (earlier t)))"
      by (simp add: window_open_def)
    obtain s' where s': "reader_turn_step s t = Some s'"
      "channel s' = foldl producer_acts (channel s) (earlier t)"
      "finished s' = is_channel_closed (foldl producer_acts (channel s) (earlier t))"
      "packets (window s') = []"
      "reader_inv s'"
      "if packets (window s) = [] then emitted s' = emitted s
          else \<exists>batch. emitted s' = emitted s @ [batch]
             \<and> m_header_buffer batch = concat (map m_header_buffer (packets (window s)))
             \<and> m_payload_buffer batch = concat (map m_payload_buffer (packets (window s)))
             \<and> m_payload_sizes_buffer batch = concat (map m_payload_sizes_buffer (packets (window s)))
             \<and> m_num_packets batch = packet_total (packets (window s))"
      using reader_turn_step_window_end [OF running wc ending] by blast
    have "reader_follows_log s' (log_turn L t)"
    proof (cases "packets (window s) = []")
      case True
      then show ?thesis using s' assms(1) lf False
        by (simp add: log_turn_def reader_follows_log_def)
    next
      case ne: False
      then obtain batch where "emitted s' = emitted s @ [batch]"
         "m_payload_buffer batch = concat (map m_payload_buffer (packets (window s)))"
         "m_num_packets batch = packet_total (packets (window s))"
        using s'(6) by auto
      then show ?thesis using s'(2-4) assms(1) lf False ne
        by (simp add: log_turn_def reader_follows_log_def)
    qed
    then show ?thesis using s'(1,5) by blast
  qed
qed

lemma reader_turns_follow_log:
  assumes "reader_follows_log s L" "reader_inv s"
  shows "\<exists>s'. reader_turns s ts = Some s' \<and> reader_follows_log s' (foldl log_turn L ts) \<and> reader_inv s'"
  using assms
proof (induction ts arbitrary: s L)
  case Nil
  then show ?case by simp
next
  case (Cons t ts)
  obtain s1 where s1: "reader_turn_step s t = Some s1" "reader_follows_log s1 (log_turn L t)" "reader_inv s1"
    using reader_turn_step_follows_log [OF Cons.prems] by blast
  show ?case
    using Cons.IH [OF s1(2,3)] s1(1) by simp
qed

lemma buffer_reader_follows_log:
  "\<exists>s. buffer_reader ch turns = Some s \<and> reader_follows_log s (reception_log_of ch turns)"
proof -
  let ?s0 = "outer_loop_head \<lparr> channel = ch, window = empty_window, emitted = [], finished = False \<rparr>"
  let ?L0 = "\<lparr> completed_windows = [], current_window = [], log_channel = ch,
         log_finished = is_channel_closed ch \<rparr>"
  have "reader_follows_log ?s0 ?L0"
    by (simp add: reader_follows_log_def outer_loop_head_def empty_window_def)
  moreover have "reader_inv ?s0"
    by (simp add: reader_inv_outer_loop_head empty_window_def)
  ultimately show ?thesis
    using reader_turns_follow_log [of ?s0 ?L0 turns]
    by (auto simp add: buffer_reader_def reception_log_of_def)
qed

lemma three_cycles_log:
  "received_windows \<lparr> ch_queue = [], ch_closed = False \<rparr>
     [\<lparr> earlier = [], in_time = True, while_waiting = [Write cycle_100] \<rparr>,
      \<lparr> earlier = [], in_time = True, while_waiting = [] \<rparr>,
      \<lparr> earlier = [], in_time = True, while_waiting = [Write cycle_50] \<rparr>,
      expiry_turn] = [[cycle_100, cycle_50]]"
  by (simp add: received_windows_def reception_log_of_def log_turn_def window_open_def
      channel_at_read_def producer_acts_def await_write_def await_read_until_def
      is_channel_closed_def expiry_turn_def)

text \<open>
  Claim C6. Whatever the producer and the clock do, the reader emits exactly one combined
  batch for each completed window in which it received at least one buffer from the
  channel, in the order of the windows, and nothing for a window in which it received
  none. The packet count of each batch is the sum of the packet counts of the buffers
  received in its window, its payload is their payloads one after the other, and so its
  payload bytes are the sum of theirs. The buffers received in the window still open are
  held, not emitted. The instance proved after it is the run with capture cycles of 100, 0
  and 50 packets in one window: one batch of 150 packets.
\<close>

theorem window_emits_one_combined_batch:
  "\<exists>s. buffer_reader ch turns = Some s
     \<and> length (emitted s) = length (received_windows ch turns)
     \<and> map m_num_packets (emitted s) = map packet_total (received_windows ch turns)
     \<and> map (\<lambda>batch. length (m_payload_buffer batch)) (emitted s)
         = map payload_bytes (received_windows ch turns)
     \<and> map m_payload_buffer (emitted s)
         = map (\<lambda>w. concat (map m_payload_buffer w)) (received_windows ch turns)
     \<and> packets (window s) = current_window (reception_log_of ch turns)
     \<and> channel s = log_channel (reception_log_of ch turns)
     \<and> finished s = log_finished (reception_log_of ch turns)"
proof -
  obtain s where s: "buffer_reader ch turns = Some s"
      "reader_follows_log s (reception_log_of ch turns)"
    using buffer_reader_follows_log by blast
  have n: "map m_num_packets (emitted s) = map packet_total (received_windows ch turns)"
    and p: "map m_payload_buffer (emitted s)
         = map (\<lambda>w. concat (map m_payload_buffer w)) (received_windows ch turns)"
    using s(2) by (simp_all add: reader_follows_log_def received_windows_def)
  have len: "length (emitted s) = length (received_windows ch turns)"
    using n map_eq_imp_length_eq by blast
  have "map (\<lambda>batch. length (m_payload_buffer batch)) (emitted s)
      = map length (map m_payload_buffer (emitted s))"
    by simp
  also have "\<dots> = map length (map (\<lambda>w. concat (map m_payload_buffer w)) (received_windows ch turns))"
    by (simp only: p)
  also have "\<dots> = map payload_bytes (received_windows ch turns)"
    by (simp add: length_concat_fields comp_def)
  finally have bytes: "map (\<lambda>batch. length (m_payload_buffer batch)) (emitted s)
         = map payload_bytes (received_windows ch turns)" .
  show ?thesis
    using s n p len bytes by (auto simp add: reader_follows_log_def)
qed

theorem window_emits_one_combined_batch_witness:
  "map_option (map m_num_packets \<circ> emitted)
     (buffer_reader \<lparr> ch_queue = [], ch_closed = False \<rparr>
        [\<lparr> earlier = [], in_time = True, while_waiting = [Write cycle_100] \<rparr>,
         \<lparr> earlier = [], in_time = True, while_waiting = [] \<rparr>,
         \<lparr> earlier = [], in_time = True, while_waiting = [Write cycle_50] \<rparr>,
         expiry_turn]) = Some [150]
   \<and> map_option (map (length \<circ> m_payload_buffer) \<circ> emitted)
     (buffer_reader \<lparr> ch_queue = [], ch_closed = False \<rparr>
        [\<lparr> earlier = [], in_time = True, while_waiting = [Write cycle_100] \<rparr>,
         \<lparr> earlier = [], in_time = True, while_waiting = [] \<rparr>,
         \<lparr> earlier = [], in_time = True, while_waiting = [Write cycle_50] \<rparr>,
         expiry_turn]) = Some [7900]"
  using window_emits_one_combined_batch
    [of "\<lparr> ch_queue = [], ch_closed = False \<rparr>"
        "[\<lparr> earlier = [], in_time = True, while_waiting = [Write cycle_100] \<rparr>,
         \<lparr> earlier = [], in_time = True, while_waiting = [] \<rparr>,
         \<lparr> earlier = [], in_time = True, while_waiting = [Write cycle_50] \<rparr>,
         expiry_turn]"]
  unfolding three_cycles_log
  by (auto simp add: packet_total_def payload_bytes_def cycle_100_def cycle_50_def comp_def)

text \<open>
  Claim C8 (as amended). When the reader finds the channel closed at its loop condition it
  stops reading: it emits one final batch made of the buffers it has already read in the
  current window, if there are any, and returns (further turns change nothing). The
  entries still queued in the channel stay there, unread.
\<close>

theorem reader_stops_reading_at_close:
  assumes run: "buffer_reader ch turns = Some s"
      and running: "\<not> finished s"
      and closed: "is_channel_closed (foldl producer_acts (channel s) (earlier t))"
  shows "\<exists>s'. reader_turn_step s t = Some s'
     \<and> finished s'
     \<and> reader_turns s' later = Some s'
     \<and> channel s' = foldl producer_acts (channel s) (earlier t)
     \<and> (if packets (window s) = [] then emitted s' = emitted s
        else \<exists>batch. emitted s' = emitted s @ [batch]
           \<and> m_num_packets batch = packet_total (packets (window s))
           \<and> m_header_buffer batch = concat (map m_header_buffer (packets (window s)))
           \<and> m_payload_buffer batch = concat (map m_payload_buffer (packets (window s)))
           \<and> m_payload_sizes_buffer batch = concat (map m_payload_sizes_buffer (packets (window s))))"
proof -
  have "reader_inv s"
    using buffer_reader_inv [of ch turns] run by simp
  then have wc: "window_consistent (window s)"
    using running by (simp add: reader_inv_def)
  have ending: "\<not> (in_time t \<and> \<not> is_channel_closed (foldl producer_acts (channel s) (earlier t)))"
    using closed by simp
  obtain s' where s': "reader_turn_step s t = Some s'"
      "channel s' = foldl producer_acts (channel s) (earlier t)"
      "finished s' = is_channel_closed (foldl producer_acts (channel s) (earlier t))"
      "if packets (window s) = [] then emitted s' = emitted s
          else \<exists>batch. emitted s' = emitted s @ [batch]
             \<and> m_header_buffer batch = concat (map m_header_buffer (packets (window s)))
             \<and> m_payload_buffer batch = concat (map m_payload_buffer (packets (window s)))
             \<and> m_payload_sizes_buffer batch = concat (map m_payload_sizes_buffer (packets (window s)))
             \<and> m_num_packets batch = packet_total (packets (window s))"
    using reader_turn_step_window_end [OF running wc ending] by blast
  have fin: "finished s'" using s'(3) closed by simp
  show ?thesis
  proof (cases "packets (window s) = []")
    case True
    then show ?thesis using s' fin reader_turns_finished [OF fin, of later] by auto
  next
    case False
    then show ?thesis using s' fin reader_turns_finished [OF fin, of later] by auto
  qed
qed

theorem reader_stops_reading_at_close_witness:
  "map_option (map m_payload_buffer \<circ> emitted) (reader_turn_step
      \<lparr> channel = \<lparr> ch_queue = [buffer_B], ch_closed = True \<rparr>,
            window = accumulate_all [buffer_A], emitted = [], finished = False \<rparr> quiet_turn)
     = Some [[1, 2, 3]]
   \<and> map_option (ch_queue \<circ> channel) (reader_turn_step
      \<lparr> channel = \<lparr> ch_queue = [buffer_B], ch_closed = True \<rparr>,
            window = accumulate_all [buffer_A], emitted = [], finished = False \<rparr> quiet_turn)
     = Some [buffer_B]
   \<and> map_option finished (reader_turn_step
      \<lparr> channel = \<lparr> ch_queue = [buffer_B], ch_closed = True \<rparr>,
            window = accumulate_all [buffer_A], emitted = [], finished = False \<rparr> quiet_turn)
     = Some True"
proof -
  obtain s' where "reader_turn_step
      \<lparr> channel = \<lparr> ch_queue = [buffer_B], ch_closed = True \<rparr>,
            window = accumulate_all [buffer_A], emitted = [], finished = False \<rparr> quiet_turn = Some s'"
     "finished s'" "channel s' = \<lparr> ch_queue = [buffer_B], ch_closed = True \<rparr>"
     "\<exists>batch. emitted s' = [batch]
           \<and> m_num_packets batch = packet_total [buffer_A]
           \<and> m_header_buffer batch = concat (map m_header_buffer [buffer_A])
           \<and> m_payload_buffer batch = concat (map m_payload_buffer [buffer_A])
           \<and> m_payload_sizes_buffer batch = concat (map m_payload_sizes_buffer [buffer_A])"
    using reader_stops_reading_at_close [OF closing_run, where t = quiet_turn and later = "[]"]
    by (auto simp add: quiet_turn_def is_channel_closed_def packets_accumulate_all)
  then show ?thesis
    by (auto simp add: packet_total_def buffer_A_def)
qed

text \<open>
  The producer writes \<open>buffer_A\<close> and \<open>buffer_B\<close> and closes the channel while the reader
  waits on the empty channel. The reader takes \<open>buffer_A\<close>, finds the channel closed,
  emits \<open>buffer_A\<close> and returns; \<open>buffer_B\<close> is still queued and is never emitted.
\<close>

theorem buffer_reader_leaves_queued_buffer:
  "buffer_reader \<lparr> ch_queue = [], ch_closed = False \<rparr>
      [\<lparr> earlier = [], in_time = True, while_waiting = [Write buffer_A, Write buffer_B, Close] \<rparr>,
       \<lparr> earlier = [], in_time = True, while_waiting = [] \<rparr>]
   = Some \<lparr> channel = \<lparr> ch_queue = [buffer_B], ch_closed = True \<rparr>,
            window = (accumulate_all [buffer_A]) \<lparr> packets := [] \<rparr>,
            emitted = [buffer_A], finished = True \<rparr>"
  by (simp add: buffer_reader_def outer_loop_head_def is_channel_closed_def reader_turn_step_def
      producer_acts_def await_write_def await_read_until_def accumulate_all_def empty_window_def
      close_channel_def emit_window_def concat_window_def concat_packet_buffers_def
      concat_packet_buffers_copies_def accumulate_def)

section \<open>Properties of the polling loop\<close>

lemma smod_nonneg: "0 \<le> k \<Longrightarrow> 0 < l \<Longrightarrow> k smod l = k mod (l :: int)"
  by (simp add: signed_modulo_int_def sgn_if)

lemma poll_iteration_cursor:
  assumes "0 < sem_size" "0 \<le> semaphore_idx_d s" "semaphore_idx_d s < int sem_size"
      and "poll_iteration sem_size s c = Inr s'"
  shows "0 \<le> semaphore_idx_d s' \<and> semaphore_idx_d s' < int sem_size"
  using assms
  by (auto simp add: poll_iteration_def Let_def smod_nonneg split: if_splits)

lemma poll_loop_cursor:
  assumes "0 < sem_size" "0 \<le> semaphore_idx_d s" "semaphore_idx_d s < int sem_size"
      and "poll_loop sem_size s cycles = Inr s'"
  shows "0 \<le> semaphore_idx_d s' \<and> semaphore_idx_d s' < int sem_size"
  using assms
proof (induction cycles arbitrary: s)
  case Nil
  then show ?case by simp
next
  case (Cons c cycles)
  show ?case
  proof (cases "is_subscribed s")
    case False
    then show ?thesis using Cons.prems by simp
  next
    case True
    then obtain s1 where s1: "poll_iteration sem_size s c = Inr s1" "poll_loop sem_size s1 cycles = Inr s'"
      using Cons.prems(4) by (auto split: sum.splits)
    have "0 \<le> semaphore_idx_d s1 \<and> semaphore_idx_d s1 < int sem_size"
      using poll_iteration_cursor [OF Cons.prems(1-3) s1(1)] .
    then show ?thesis
      using Cons.IH [of s1] Cons.prems(1) s1(2) by simp
  qed
qed

lemma two_drains:
  "poll_loop 2 initial_poll_state [drain_cycle, idle_cycle] =
     Inr \<lparr> semaphore_idx_d = 1, is_subscribed = True,
            device_allocations = per_field_allocations 100 6400,
            gather_launches = 1, emitted_messages = [(100, 6400)] \<rparr>"
  by (simp add: initial_poll_state_def drain_cycle_def idle_cycle_def poll_iteration_def
      smod_nonneg)

text \<open>The ring of a constructed stage has 1024 slots.\<close>

lemma constructed_ring_capacity:
  "DocaSourceStage hw nic gpu f = (Inr stage, rs) \<Longrightarrow> m_semaphore_size stage = 1024"
  by (auto simp add: DocaSourceStage_def split: option.splits if_splits)

text \<open>
  Claim C2. The semaphore cursor starts at 0. In every state the polling loop reaches,
  \<open>0 \<le> cursor < ring capacity\<close>. A cycle that drains a positive packet count (and whose
  device buffers can be allocated) completes and leaves the cursor at
  \<open>(cursor + 1) mod capacity\<close>: the next slot, or slot 0 after the last one (with two or
  more slots, never the slot just used). No completed cycle with a non-zero count moves
  the cursor in any other way.
\<close>

theorem semaphore_cursor_advances_by_one:
  assumes capacity: "0 < sem_size"
      and reached: "poll_loop sem_size initial_poll_state cycles = Inr s"
  shows "semaphore_idx_d initial_poll_state = 0
     \<and> 0 \<le> semaphore_idx_d s \<and> semaphore_idx_d s < int sem_size
     \<and> (exit_condition c \<noteq> 1 \<and> 0 < packet_count_d c \<and> 0 \<le> packet_size_total_d c \<and> device_memory_ok c
          \<longrightarrow> (\<exists>s'. poll_iteration sem_size s c = Inr s'
                 \<and> semaphore_idx_d s' = (semaphore_idx_d s + 1) mod int sem_size
                 \<and> semaphore_idx_d s' =
                     (if semaphore_idx_d s + 1 = int sem_size then 0 else semaphore_idx_d s + 1)
                 \<and> (2 \<le> sem_size \<longrightarrow> semaphore_idx_d s' \<noteq> semaphore_idx_d s)
                 \<and> 0 \<le> semaphore_idx_d s' \<and> semaphore_idx_d s' < int sem_size))
     \<and> (\<forall>s'. poll_iteration sem_size s c = Inr s' \<and> exit_condition c \<noteq> 1 \<and> packet_count_d c \<noteq> 0
          \<longrightarrow> semaphore_idx_d s' = (semaphore_idx_d s + 1) mod int sem_size)"
proof -
  have range: "0 \<le> semaphore_idx_d s \<and> semaphore_idx_d s < int sem_size"
    using poll_loop_cursor [OF capacity _ _ reached] capacity
    by (simp add: initial_poll_state_def)
  have init: "semaphore_idx_d initial_poll_state = 0"
    by (simp add: initial_poll_state_def)
  have step: "exit_condition c \<noteq> 1 \<and> 0 < packet_count_d c \<and> 0 \<le> packet_size_total_d c \<and> device_memory_ok c
          \<longrightarrow> (\<exists>s'. poll_iteration sem_size s c = Inr s'
                 \<and> semaphore_idx_d s' = (semaphore_idx_d s + 1) mod int sem_size
                 \<and> semaphore_idx_d s' =
                     (if semaphore_idx_d s + 1 = int sem_size then 0 else semaphore_idx_d s + 1)
                 \<and> (2 \<le> sem_size \<longrightarrow> semaphore_idx_d s' \<noteq> semaphore_idx_d s)
                 \<and> 0 \<le> semaphore_idx_d s' \<and> semaphore_idx_d s' < int sem_size)"
    using range capacity
    by (auto simp add: poll_iteration_def Let_def smod_nonneg)
  have any: "\<forall>s'. poll_iteration sem_size s c = Inr s' \<and> exit_condition c \<noteq> 1 \<and> packet_count_d c \<noteq> 0
          \<longrightarrow> semaphore_idx_d s' = (semaphore_idx_d s + 1) mod int sem_size"
    using range capacity
    by (auto simp add: poll_iteration_def Let_def smod_nonneg split: if_splits)
  show ?thesis using range init step any by blast
qed

theorem semaphore_cursor_advances_by_one_witness:
  "\<exists>s'. poll_iteration 2
            \<lparr> semaphore_idx_d = 1, is_subscribed = True,
              device_allocations = per_field_allocations 100 6400,
              gather_launches = 1, emitted_messages = [(100, 6400)] \<rparr> drain_cycle = Inr s'
        \<and> semaphore_idx_d s' = 0"
  using semaphore_cursor_advances_by_one [of 2 "[drain_cycle, idle_cycle]" _ drain_cycle, OF _ two_drains]
  by (auto simp add: drain_cycle_def)

text \<open>
  Claim C3. A poll cycle whose reported packet count is zero is not an error and changes
  nothing: no device vector is allocated, no gather kernel is launched, nothing is passed
  downstream, the semaphore cursor and the subscription stay as they are, and the loop
  goes on with the next cycle.
\<close>

theorem zero_packet_cycle_is_idle:
  assumes polled: "exit_condition c \<noteq> 1"
      and zero: "packet_count_d c = 0"
  shows "\<exists>s'. poll_iteration sem_size s c = Inr s'
     \<and> device_allocations s' = device_allocations s
     \<and> gather_launches s' = gather_launches s
     \<and> emitted_messages s' = emitted_messages s
     \<and> semaphore_idx_d s' = semaphore_idx_d s
     \<and> is_subscribed s' = is_subscribed s
     \<and> s' = s
     \<and> (is_subscribed s \<longrightarrow> poll_loop sem_size s (c # cs) = poll_loop sem_size s cs)"
  using assms by (simp add: poll_iteration_def)

theorem zero_packet_cycle_is_idle_witness:
  "poll_loop 1024 initial_poll_state [idle_cycle, idle_cycle] = Inr initial_poll_state
   \<and> poll_iteration 1024 initial_poll_state idle_cycle = Inr initial_poll_state"
  using zero_packet_cycle_is_idle [of idle_cycle 1024 initial_poll_state "[idle_cycle]"]
        zero_packet_cycle_is_idle [of idle_cycle 1024 initial_poll_state "[]"]
  by (simp add: idle_cycle_def initial_poll_state_def)

section \<open>Properties of ip\_to\_int and of the constructor\<close>

lemma byte_bit_lt: "bit (w :: byte) n \<Longrightarrow> n < 8"
  using bit_imp_le_length [of w n] by simp

lemma ipv4_sum_is_or:
  "push_bit 24 (ucast a) + push_bit 16 (ucast b) + push_bit 8 (ucast c) + ucast d
   = (push_bit 24 (ucast (a::byte)) OR push_bit 16 (ucast (b::byte)) OR push_bit 8 (ucast (c::byte)) OR ucast (d::byte) :: 32 word)"
proof -
  have 1: "push_bit 24 (ucast a) + push_bit 16 (ucast b) = (push_bit 24 (ucast a) OR push_bit 16 (ucast b) :: 32 word)"
    by (rule disjunctive_add) (auto simp add: bit_simps dest: byte_bit_lt)
  have 2: "(push_bit 24 (ucast a) OR push_bit 16 (ucast b)) + push_bit 8 (ucast c)
        = ((push_bit 24 (ucast a) OR push_bit 16 (ucast b)) OR push_bit 8 (ucast c) :: 32 word)"
    by (rule disjunctive_add) (auto simp add: bit_simps dest: byte_bit_lt)
  have 3: "((push_bit 24 (ucast a) OR push_bit 16 (ucast b)) OR push_bit 8 (ucast c)) + ucast d
        = (((push_bit 24 (ucast a) OR push_bit 16 (ucast b)) OR push_bit 8 (ucast c)) OR ucast d :: 32 word)"
    by (rule disjunctive_add) (auto simp add: bit_simps dest: byte_bit_lt)
  have "push_bit 24 (ucast a) + push_bit 16 (ucast b) + push_bit 8 (ucast c) + ucast d
      = (((push_bit 24 (ucast a) OR push_bit 16 (ucast b)) OR push_bit 8 (ucast c)) OR ucast d :: 32 word)"
    by (simp only: 1 2 3)
  also have "\<dots> = (push_bit 24 (ucast a) OR push_bit 16 (ucast b) OR push_bit 8 (ucast c) OR ucast d :: 32 word)"
    by (simp only: or.assoc)
  finally show ?thesis .
qed

lemma byte_masks:
  "(0x000000ff :: 32 word) = mask 8"
  "(0x0000ff00 :: 32 word) = push_bit 8 (mask 8)"
  "(0x00ff0000 :: 32 word) = push_bit 16 (mask 8)"
  "(0xff000000 :: 32 word) = push_bit 24 (mask 8)"
  by (simp_all add: mask_eq_decr_exp push_bit_eq_mult)

lemma le_bytes32_RTE_BE32:
  "le_bytes32 (RTE_BE32 (push_bit 24 (ucast (a::byte)) OR push_bit 16 (ucast (b::byte)) OR push_bit 8 (ucast (c::byte)) OR ucast (d::byte)))
    = [a, b, c, d]"
proof -
  let ?v = "push_bit 24 (ucast a) OR push_bit 16 (ucast b) OR push_bit 8 (ucast c) OR ucast d :: 32 word"
  have b0: "(ucast (RTE_BE32 ?v) :: byte) = a"
    unfolding RTE_BE32_def byte_masks
    by (rule bit_word_eqI) (auto simp add: bit_simps dest: byte_bit_lt)
  have b1: "(ucast (drop_bit 8 (RTE_BE32 ?v)) :: byte) = b"
    unfolding RTE_BE32_def byte_masks
    by (rule bit_word_eqI) (auto simp add: bit_simps dest: byte_bit_lt)
  have b2: "(ucast (drop_bit 16 (RTE_BE32 ?v)) :: byte) = c"
    unfolding RTE_BE32_def byte_masks
    by (rule bit_word_eqI) (auto simp add: bit_simps dest: byte_bit_lt)
  have b3: "(ucast (drop_bit 24 (RTE_BE32 ?v)) :: byte) = d"
    unfolding RTE_BE32_def byte_masks
    by (rule bit_word_eqI) (auto simp add: bit_simps dest: byte_bit_lt)
  show ?thesis
    using b0 b1 b2 b3 by (simp add: le_bytes32_def)
qed

lemma le_bytes32_BE_IPV4_ADDR: "le_bytes32 (BE_IPV4_ADDR a b c d) = [a, b, c, d]"
  by (simp only: BE_IPV4_ADDR_def ipv4_sum_is_or le_bytes32_RTE_BE32)

lemma not_space_digit: "is_digit c \<Longrightarrow> \<not> is_space c"
  by (auto simp add: is_digit_def is_space_def)

lemma not_sign_digit: "is_digit c \<Longrightarrow> c \<noteq> CHR ''-'' \<and> c \<noteq> CHR ''+''"
  by (auto simp add: is_digit_def)

lemma not_digit_dot: "\<not> is_digit CHR ''.''"
  by (simp add: is_digit_def)

lemma scan_hhu_digits:
  assumes "ds \<noteq> []" "\<forall>c\<in>set ds. is_digit c" "decimal_value ds \<le> 255"
      and "rest = [] \<or> \<not> is_digit (hd rest)"
  shows "scan_hhu (ds @ rest) = Some (of_nat (decimal_value ds), rest)"
proof -
  obtain x xs where ds: "ds = x # xs" using assms(1) by (cases ds) auto
  have x: "is_digit x" using assms(2) ds by simp
  have s1: "dropWhile is_space (ds @ rest) = ds @ rest"
    using x ds not_space_digit by simp
  have tw: "takeWhile is_digit (ds @ rest) = ds"
    using assms(2,4) by (cases rest) (simp_all add: takeWhile_append2)
  have dw: "dropWhile is_digit (ds @ rest) = rest"
    using assms(2,4) by (cases rest) (simp_all add: dropWhile_append2)
  have small: "\<not> ULONG_MAX < decimal_value ds"
    using assms(3) by (simp add: ULONG_MAX_def)
  show ?thesis
    unfolding scan_hhu_def s1
    using tw dw small assms(1) not_sign_digit [OF x]
    by (simp add: ds Let_def)
qed

lemma scan_octet:
  assumes "octet_digits ds" "rest = [] \<or> \<not> is_digit (hd rest)"
  shows "scan_hhu (ds @ rest) = Some (of_nat (decimal_value ds), rest)"
  using assms scan_hhu_digits [of ds rest]
  by (simp add: octet_digits_def list_all_iff)

lemma sscanf_ip_dotted_quad:
  assumes "octet_digits da" "octet_digits db" "octet_digits dc" "octet_digits dd"
  shows "sscanf_ip (dotted_quad da db dc dd) =
           (4, [of_nat (decimal_value da), of_nat (decimal_value db),
                of_nat (decimal_value dc), of_nat (decimal_value dd)])"
proof -
  have a: "scan_hhu (da @ CHR ''.'' # db @ CHR ''.'' # dc @ CHR ''.'' # dd)
      = Some (of_nat (decimal_value da), CHR ''.'' # db @ CHR ''.'' # dc @ CHR ''.'' # dd)"
    using scan_octet [OF assms(1)] not_digit_dot by simp
  have b: "scan_hhu (db @ CHR ''.'' # dc @ CHR ''.'' # dd)
      = Some (of_nat (decimal_value db), CHR ''.'' # dc @ CHR ''.'' # dd)"
    using scan_octet [OF assms(2)] not_digit_dot by simp
  have c: "scan_hhu (dc @ CHR ''.'' # dd) = Some (of_nat (decimal_value dc), CHR ''.'' # dd)"
    using scan_octet [OF assms(3)] not_digit_dot by simp
  have d: "scan_hhu dd = Some (of_nat (decimal_value dd), [])"
    using scan_octet [OF assms(4), of "[]"] by simp
  show ?thesis
    by (simp add: sscanf_ip_def dotted_quad_def a b c d)
qed

lemma ip_to_int_dotted_quad:
  assumes "octet_digits da" "octet_digits db" "octet_digits dc" "octet_digits dd"
  shows "ip_to_int (dotted_quad da db dc dd) =
           Some (BE_IPV4_ADDR (of_nat (decimal_value da)) (of_nat (decimal_value db))
                   (of_nat (decimal_value dc)) (of_nat (decimal_value dd)))"
proof -
  have "dotted_quad da db dc dd \<noteq> []"
    by (simp add: dotted_quad_def)
  then show ?thesis
    using sscanf_ip_dotted_quad [OF assms] by (simp add: ip_to_int_def)
qed

lemma ip_to_int_None_iff:
  "ip_to_int s = None \<longleftrightarrow> s \<noteq> [] \<and> fst (sscanf_ip s) \<noteq> 4"
  by (auto simp add: ip_to_int_def split: prod.splits)

lemma DocaSourceStage_parse_error_iff:
  "fst (DocaSourceStage hw nic gpu s) = Inl (runtime_error ''source ip filter invalid'')
     \<longleftrightarrow> s \<noteq> [] \<and> fst (sscanf_ip s) \<noteq> 4"
proof (cases "ip_to_int s")
  case None
  then show ?thesis using ip_to_int_None_iff [of s] by (simp add: DocaSourceStage_def)
next
  case (Some ip)
  then show ?thesis using ip_to_int_None_iff [of s] by (auto simp add: DocaSourceStage_def)
qed

lemma sscanf_examples:
  "sscanf_ip ''1.2.3'' = (3, [1, 2, 3])"
  "sscanf_ip ''10.0.0.5'' = (4, [10, 0, 0, 5])"
  "sscanf_ip ''1.2.3.4xyz'' = (4, [1, 2, 3, 4])"
  "sscanf_ip ''300.2.3.4'' = (4, [44, 2, 3, 4])"
  "sscanf_ip ''abc'' = (0, [])"
  "sscanf_ip [] = (0, [])"
  by (simp_all add: sscanf_ip_def scan_hhu_def is_space_def is_digit_def decimal_value_def
      digit_value_def ULONG_MAX_def Let_def)

lemma octet_examples: "octet_digits ''10''" "octet_digits ''0''" "octet_digits ''5''"
  by (simp_all add: octet_digits_def is_digit_def decimal_value_def digit_value_def)

text \<open>
  What the format accepts, read off the scanner: one \<^verbatim>\<open>%hhu\<close> consumes exactly a number in
  the wider sense, and the whole format converts four fields exactly on the strings that
  begin with four such numbers separated by dots.
\<close>

lemma scan_hhu_consumes_number:
  assumes "scan_hhu s = Some (v, r)"
  shows "\<exists>f. s = f @ r \<and> number_field f"
proof -
  let ?ws = "takeWhile is_space s"
  let ?s1 = "dropWhile is_space s"
  let ?sign = "case ?s1 of c # r \<Rightarrow> if c = CHR ''-'' \<or> c = CHR ''+'' then [c] else [] | [] \<Rightarrow> []"
  let ?s2 = "case ?s1 of c # r \<Rightarrow> if c = CHR ''-'' \<or> c = CHR ''+'' then r else ?s1 | [] \<Rightarrow> ?s1"
  let ?ds = "takeWhile is_digit ?s2"
  have nonempty: "?ds \<noteq> []" and r: "r = dropWhile is_digit ?s2"
    using assms by (auto simp add: scan_hhu_def Let_def split: if_splits)
  have s: "s = ?ws @ ?s1" by simp
  have "x = (case x of c # r \<Rightarrow> if c = CHR ''-'' \<or> c = CHR ''+'' then [c] else [] | [] \<Rightarrow> [])
             @ (case x of c # r \<Rightarrow> if c = CHR ''-'' \<or> c = CHR ''+'' then r else x | [] \<Rightarrow> x)"
    for x :: string
    by (cases x) simp_all
  then have s1: "?s1 = ?sign @ ?s2" .
  have s2: "?s2 = ?ds @ r" using r by simp
  have "s = (?ws @ ?sign @ ?ds) @ r"
    using s s1 s2 by (metis append.assoc)
  moreover have "number_field (?ws @ ?sign @ ?ds)"
    unfolding number_field_def
    apply (rule exI [of _ ?ws], rule exI [of _ ?sign], rule exI [of _ ?ds])
    using nonempty
    by (auto simp add: list_all_iff dest: set_takeWhileD split: list.splits)
  ultimately show ?thesis by blast
qed

lemma not_space_sign: "\<not> is_space CHR ''+''" "\<not> is_space CHR ''-''"
  by (simp_all add: is_space_def)

lemma scan_hhu_digits_after_sign:
  assumes "ds \<noteq> []" "list_all is_digit ds"
  shows "takeWhile is_digit (ds @ r) \<noteq> []" "dropWhile is_digit (ds @ r) = dropWhile is_digit r"
  using assms by (cases ds; simp add: list_all_iff dropWhile_append)+

lemma scan_hhu_number:
  assumes "number_field f"
  shows "\<exists>v. scan_hhu (f @ r) = Some (v, dropWhile is_digit r)"
proof -
  obtain ws sign ds where f: "f = ws @ sign @ ds" and ws: "list_all is_space ws"
    and sign: "sign = [] \<or> sign = ''+'' \<or> sign = ''-''" and ds: "ds \<noteq> []" "list_all is_digit ds"
    using assms by (auto simp add: number_field_def)
  obtain d ds' where dds: "ds = d # ds'" "is_digit d"
    using ds by (cases ds) auto
  have head: "dropWhile is_space (sign @ ds @ r) = sign @ ds @ r"
    using sign dds not_space_sign not_space_digit by auto
  have s1: "dropWhile is_space (f @ r) = sign @ ds @ r"
    using ws head by (simp add: f dropWhile_append list_all_iff)
  note tails = scan_hhu_digits_after_sign [OF ds, of r]
  show ?thesis
    using sign
  proof (elim disjE)
    assume "sign = []"
    then show ?thesis
      unfolding scan_hhu_def s1 using tails dds not_sign_digit [OF dds(2)]
      by (simp add: Let_def)
  next
    assume "sign = ''+''"
    then show ?thesis
      unfolding scan_hhu_def s1 using tails
      by (simp add: Let_def)
  next
    assume "sign = ''-''"
    then show ?thesis
      unfolding scan_hhu_def s1 using tails
      by (simp add: Let_def)
  qed
qed

lemma scan_hhu_number_dot:
  assumes "number_field f"
  shows "\<exists>v. scan_hhu (f @ CHR ''.'' # r) = Some (v, CHR ''.'' # r)"
  using scan_hhu_number [OF assms, of "CHR ''.'' # r"] not_digit_dot by simp

lemma sscanf_ip_four_iff: "fst (sscanf_ip s) = 4 \<longleftrightarrow> begins_with_four_numbers s"
proof
  assume "begins_with_four_numbers s"
  then obtain f1 f2 f3 f4 rest where s: "s = f1 @ CHR ''.'' # f2 @ CHR ''.'' # f3 @ CHR ''.'' # f4 @ rest"
    and nf: "number_field f1" "number_field f2" "number_field f3" "number_field f4"
    by (auto simp add: begins_with_four_numbers_def)
  obtain v1 where 1: "scan_hhu (f1 @ CHR ''.'' # f2 @ CHR ''.'' # f3 @ CHR ''.'' # f4 @ rest)
       = Some (v1, CHR ''.'' # f2 @ CHR ''.'' # f3 @ CHR ''.'' # f4 @ rest)"
    using scan_hhu_number_dot [OF nf(1)] by blast
  obtain v2 where 2: "scan_hhu (f2 @ CHR ''.'' # f3 @ CHR ''.'' # f4 @ rest)
       = Some (v2, CHR ''.'' # f3 @ CHR ''.'' # f4 @ rest)"
    using scan_hhu_number_dot [OF nf(2)] by blast
  obtain v3 where 3: "scan_hhu (f3 @ CHR ''.'' # f4 @ rest) = Some (v3, CHR ''.'' # f4 @ rest)"
    using scan_hhu_number_dot [OF nf(3)] by blast
  obtain v4 where 4: "scan_hhu (f4 @ rest) = Some (v4, dropWhile is_digit rest)"
    using scan_hhu_number [OF nf(4)] by blast
  show "fst (sscanf_ip s) = 4"
    by (simp add: sscanf_ip_def s 1 2 3 4)
next
  assume four: "fst (sscanf_ip s) = 4"
  then obtain a r1 where 1: "scan_hhu s = Some (a, CHR ''.'' # r1)"
    by (auto simp add: sscanf_ip_def Let_def split: option.splits list.splits if_splits)
  then obtain b r2 where 2: "scan_hhu r1 = Some (b, CHR ''.'' # r2)"
    using four
    by (auto simp add: sscanf_ip_def Let_def split: option.splits list.splits if_splits)
  then obtain c r3 where 3: "scan_hhu r2 = Some (c, CHR ''.'' # r3)"
    using four 1
    by (auto simp add: sscanf_ip_def Let_def split: option.splits list.splits if_splits)
  then obtain d r4 where 4: "scan_hhu r3 = Some (d, r4)"
    using four 1 2
    by (auto simp add: sscanf_ip_def Let_def split: option.splits list.splits if_splits)
  obtain f1 where f1: "s = f1 @ CHR ''.'' # r1" "number_field f1"
    using scan_hhu_consumes_number [OF 1] by blast
  obtain f2 where f2: "r1 = f2 @ CHR ''.'' # r2" "number_field f2"
    using scan_hhu_consumes_number [OF 2] by blast
  obtain f3 where f3: "r2 = f3 @ CHR ''.'' # r3" "number_field f3"
    using scan_hhu_consumes_number [OF 3] by blast
  obtain f4 where f4: "r3 = f4 @ r4" "number_field f4"
    using scan_hhu_consumes_number [OF 4] by blast
  have "s = f1 @ ''.'' @ f2 @ ''.'' @ f3 @ ''.'' @ f4 @ r4"
    using f1(1) f2(1) f3(1) f4(1) by simp
  then show "begins_with_four_numbers s"
    unfolding begins_with_four_numbers_def using f1(2) f2(2) f3(2) f4(2) by blast
qed

lemma octet_is_number: "octet_digits ds \<Longrightarrow> number_field ds"
  unfolding number_field_def octet_digits_def
  by (rule exI [of _ "[]"], rule exI [of _ "[]"], rule exI [of _ ds]) simp

lemma dotted_quad_begins_with_four_numbers:
  "is_dotted_quad s \<Longrightarrow> begins_with_four_numbers s"
  unfolding is_dotted_quad_def begins_with_four_numbers_def dotted_quad_def
  using octet_is_number by (metis append_Nil2)

lemma dotted_quad_ends_in_digit: "is_dotted_quad s \<Longrightarrow> s \<noteq> [] \<and> is_digit (last s)"
  by (auto simp add: is_dotted_quad_def dotted_quad_def octet_digits_def list_all_iff)

lemma dotted_quad_first_octet: "is_dotted_quad s \<Longrightarrow> octet_digits (takeWhile is_digit s)"
proof -
  assume "is_dotted_quad s"
  then obtain da r where "s = da @ CHR ''.'' # r" "octet_digits da"
    by (auto simp add: is_dotted_quad_def dotted_quad_def)
  then show ?thesis
    using not_digit_dot by (simp add: octet_digits_def list_all_iff takeWhile_append)
qed

lemma not_dotted_quads:
  "\<not> is_dotted_quad []" "\<not> is_dotted_quad ''1.2.3.4xyz''" "\<not> is_dotted_quad ''300.2.3.4''"
  "\<not> is_dotted_quad ''-1.2.3.4''"
  using dotted_quad_ends_in_digit [of "[]"] dotted_quad_ends_in_digit [of "''1.2.3.4xyz''"]
    dotted_quad_first_octet [of "''300.2.3.4''"] dotted_quad_first_octet [of "''-1.2.3.4''"]
  by (auto simp add: is_digit_def octet_digits_def decimal_value_def digit_value_def)

lemma sscanf_signed_example: "sscanf_ip ''-1.2.3.4'' = (4, [255, 2, 3, 4])"
  by (simp add: sscanf_ip_def scan_hhu_def is_space_def is_digit_def decimal_value_def
      digit_value_def ULONG_MAX_def Let_def)

lemma lenient_examples:
  "ip_to_int ''1.2.3.4xyz'' = Some (BE_IPV4_ADDR 1 2 3 4)"
  "ip_to_int ''300.2.3.4'' = Some (BE_IPV4_ADDR 44 2 3 4)"
  "ip_to_int ''-1.2.3.4'' = Some (BE_IPV4_ADDR 255 2 3 4)"
  by (simp_all add: ip_to_int_def sscanf_examples sscanf_signed_example)

text \<open>
  Claim C9 (as amended). For every filter string that is not four dotted decimal octets,
  two kinds of string apart, the constructor throws "source ip filter invalid" before any
  hardware object is constructed. The first kind is the empty string, which
  \<^verbatim>\<open>ip_to_int\<close> takes for filter 0 by an explicit test: the constructor does not throw that
  error on it. The second kind are the strings that begin with four dot-separated decimal
  numbers without being a dotted quad (a sign, leading white space, a value above 255,
  text after the fourth number); the statement says nothing about them. For every string
  \<open>a.b.c.d\<close> of four decimal octets, \<^verbatim>\<open>ip_to_int\<close> succeeds and the value it returns lies
  in memory as the bytes \<open>a, b, c, d\<close>: the big-endian (network order) encoding of the
  address.
\<close>

theorem filter_parse_failure_precedes_hardware:
  "(source_ip_filter \<noteq> [] \<and> \<not> is_dotted_quad source_ip_filter
      \<and> \<not> begins_with_four_numbers source_ip_filter \<longrightarrow>
       DocaSourceStage hw nic gpu source_ip_filter =
         (Inl (runtime_error ''source ip filter invalid''), []))
   \<and> fst (DocaSourceStage hw nic gpu []) \<noteq> Inl (runtime_error ''source ip filter invalid'')
   \<and> (octet_digits da \<and> octet_digits db \<and> octet_digits dc \<and> octet_digits dd \<longrightarrow>
       (\<exists>ip. ip_to_int (dotted_quad da db dc dd) = Some ip
           \<and> le_bytes32 ip = [of_nat (decimal_value da), of_nat (decimal_value db),
                               of_nat (decimal_value dc), of_nat (decimal_value dd)]))"
proof -
  have fail: "source_ip_filter \<noteq> [] \<and> \<not> is_dotted_quad source_ip_filter
      \<and> \<not> begins_with_four_numbers source_ip_filter \<longrightarrow>
       DocaSourceStage hw nic gpu source_ip_filter =
         (Inl (runtime_error ''source ip filter invalid''), [])"
    using ip_to_int_None_iff [of source_ip_filter] sscanf_ip_four_iff [of source_ip_filter]
    by (auto simp add: DocaSourceStage_def)
  have empty: "fst (DocaSourceStage hw nic gpu []) \<noteq> Inl (runtime_error ''source ip filter invalid'')"
    using DocaSourceStage_parse_error_iff [of hw nic gpu "[]"] by simp
  have ok: "octet_digits da \<and> octet_digits db \<and> octet_digits dc \<and> octet_digits dd \<longrightarrow>
       (\<exists>ip. ip_to_int (dotted_quad da db dc dd) = Some ip
           \<and> le_bytes32 ip = [of_nat (decimal_value da), of_nat (decimal_value db),
                               of_nat (decimal_value dc), of_nat (decimal_value dd)])"
    using ip_to_int_dotted_quad [of da db dc dd] by (simp add: le_bytes32_BE_IPV4_ADDR)
  show ?thesis using fail empty ok by blast
qed

theorem filter_parse_failure_precedes_hardware_witness:
  "DocaSourceStage all_hardware_ok ''17:00.1'' ''ca:00.0'' ''1.2.3'' =
         (Inl (runtime_error ''source ip filter invalid''), [])
   \<and> map_option le_bytes32 (ip_to_int ''10.0.0.5'') = Some [10, 0, 0, 5]"
  using filter_parse_failure_precedes_hardware
    [of "''1.2.3''" all_hardware_ok "''17:00.1''" "''ca:00.0''" "''10''" "''0''" "''0''" "''5''"]
    sscanf_ip_four_iff [of "''1.2.3''"] dotted_quad_begins_with_four_numbers [of "''1.2.3''"]
    sscanf_examples(1) octet_examples
  by (auto simp add: dotted_quad_def decimal_value_def digit_value_def)

text \<open>
  Strings that are not four dotted decimal octets and on which the constructor does not
  throw: it goes on to construct all four hardware objects. The empty string gives filter
  value 0. \<open>1.2.3.4xyz\<close>, \<open>300.2.3.4\<close> and \<open>-1.2.3.4\<close> give the filters of the addresses
  1.2.3.4, 44.2.3.4 and 255.2.3.4.
\<close>

theorem filters_not_dotted_quads_reach_hardware:
  "\<not> is_dotted_quad []
   \<and> DocaSourceStage all_hardware_ok ''17:00.1'' ''ca:00.0'' [] =
       (Inr \<lparr> m_context = (''17:00.1'', ''ca:00.0''), m_semaphore_size = 1024, m_rxpipe_source_ip = 0 \<rparr>,
        [Context, ReceiveQueue, SemaphoreRing, FlowPipe])
   \<and> \<not> is_dotted_quad ''1.2.3.4xyz''
   \<and> DocaSourceStage all_hardware_ok ''17:00.1'' ''ca:00.0'' ''1.2.3.4xyz'' =
       (Inr \<lparr> m_context = (''17:00.1'', ''ca:00.0''), m_semaphore_size = 1024,
              m_rxpipe_source_ip = BE_IPV4_ADDR 1 2 3 4 \<rparr>,
        [Context, ReceiveQueue, SemaphoreRing, FlowPipe])
   \<and> \<not> is_dotted_quad ''300.2.3.4''
   \<and> DocaSourceStage all_hardware_ok ''17:00.1'' ''ca:00.0'' ''300.2.3.4'' =
       (Inr \<lparr> m_context = (''17:00.1'', ''ca:00.0''), m_semaphore_size = 1024,
              m_rxpipe_source_ip = BE_IPV4_ADDR 44 2 3 4 \<rparr>,
        [Context, ReceiveQueue, SemaphoreRing, FlowPipe])
   \<and> \<not> is_dotted_quad ''-1.2.3.4''
   \<and> DocaSourceStage all_hardware_ok ''17:00.1'' ''ca:00.0'' ''-1.2.3.4'' =
       (Inr \<lparr> m_context = (''17:00.1'', ''ca:00.0''), m_semaphore_size = 1024,
              m_rxpipe_source_ip = BE_IPV4_ADDR 255 2 3 4 \<rparr>,
        [Context, ReceiveQueue, SemaphoreRing, FlowPipe])"
  using not_dotted_quads lenient_examples
  by (simp add: DocaSourceStage_def ip_to_int_def all_hardware_ok_def)

text \<open>
  Claim C10. \<^verbatim>\<open>ip_to_int\<close> takes the empty string for a valid filter and returns 0, so the
  constructor does not reject an empty filter at the parse step. The strings it rejects
  are exactly the non-empty ones from which \<^verbatim>\<open>sscanf\<close> does not convert four fields.
\<close>

theorem empty_filter_is_accepted:
  "ip_to_int [] = Some 0
   \<and> fst (DocaSourceStage hw nic gpu []) \<noteq> Inl (runtime_error ''source ip filter invalid'')
   \<and> (ip_to_int s = None \<longleftrightarrow> s \<noteq> [] \<and> fst (sscanf_ip s) \<noteq> 4)
   \<and> (fst (DocaSourceStage hw nic gpu s) = Inl (runtime_error ''source ip filter invalid'')
        \<longleftrightarrow> s \<noteq> [] \<and> fst (sscanf_ip s) \<noteq> 4)"
  using ip_to_int_None_iff [of s] DocaSourceStage_parse_error_iff [of hw nic gpu s]
    DocaSourceStage_parse_error_iff [of hw nic gpu "[]"]
  by (simp add: ip_to_int_def)

theorem empty_filter_is_accepted_witness:
  "ip_to_int [] = Some 0
   \<and> fst (DocaSourceStage all_hardware_ok ''17:00.1'' ''ca:00.0'' []) \<noteq> Inl (runtime_error ''source ip filter invalid'')
   \<and> ip_to_int ''1.2.3'' = None
   \<and> ip_to_int ''abc'' = None
   \<and> ip_to_int ''10.0.0.5'' \<noteq> None"
  using empty_filter_is_accepted [of all_hardware_ok "''17:00.1''" "''ca:00.0''" "''1.2.3''"]
        empty_filter_is_accepted [of all_hardware_ok "''17:00.1''" "''ca:00.0''" "''abc''"]
        empty_filter_is_accepted [of all_hardware_ok "''17:00.1''" "''ca:00.0''" "''10.0.0.5''"]
        sscanf_examples
  by simp

section \<open>Properties of the flow pipes\<close>






end
